theory Spec2Isabelle
  imports Main "HOL-Library.Word" "HOL-Library.Signed_Division"
begin

unbundle bit_operations_syntax

chapter \<open>The logging package as functions\<close>

section \<open>Levels, output types and flags\<close>

text \<open>
  \<^verbatim>\<open>type LogLevel int\<close> and \<^verbatim>\<open>type OutputType int\<close>. The flags are Go \<^verbatim>\<open>int\<close>s
  used as bit masks; only the bits 0 to 9 are ever tested, so the flags are modelled as
  unbounded integers with two's complement bit operations.
\<close>

type_synonym LogLevel = int
type_synonym OutputType = int

definition LogLevel_String :: "LogLevel \<Rightarrow> string" where
  "LogLevel_String l =
     (if l = 0 then ''DEGUB''
      else if l = 1 then ''INFO''
      else if l = 2 then ''WARN''
      else if l = 3 then ''ERROR''
      else if l = 4 then ''FATAL''
      else ''UNKNOWN'')"

definition Permits :: "LogLevel \<Rightarrow> LogLevel \<Rightarrow> bool" where
  "Permits l level = (l \<le> level)"

definition T_Text :: OutputType where "T_Text = 0"
definition T_JSON :: OutputType where "T_JSON = 1"

definition L_Debug :: LogLevel where "L_Debug = 0"
definition L_Info :: LogLevel where "L_Info = 1"
definition L_Warn :: LogLevel where "L_Warn = 2"
definition L_Error :: LogLevel where "L_Error = 3"
definition L_Fatal :: LogLevel where "L_Fatal = 4"

text \<open>\<^verbatim>\<open>F_Time = 1 << iota\<close> and the following constants of the same block.\<close>

definition F_Time :: int where "F_Time = 1"
definition F_Micro :: int where "F_Micro = 2"
definition F_Prefix :: int where "F_Prefix = 4"
definition F_LastPrefix :: int where "F_LastPrefix = 8"
definition F_Level :: int where "F_Level = 16"
definition F_NewLine :: int where "F_NewLine = 32"
definition F_Fields :: int where "F_Fields = 64"
definition F_Fields_A :: int where "F_Fields_A = 128"
definition F_Fields_B :: int where "F_Fields_B = 256"
definition F_NotSave :: int where "F_NotSave = 512"

lemmas flag_defs =
  F_Time_def F_Micro_def F_Prefix_def F_LastPrefix_def F_Level_def F_NewLine_def
  F_Fields_def F_Fields_A_def F_Fields_B_def F_NotSave_def

section \<open>Log entries and the compiled cache\<close>

text \<open>
  What the renderers read of a \<^verbatim>\<open>time.Time\<close>: the results of \<^verbatim>\<open>Date()\<close>, \<^verbatim>\<open>Hour()\<close>,
  \<^verbatim>\<open>Minute()\<close>, \<^verbatim>\<open>Second()\<close> and \<^verbatim>\<open>Nanosecond()\<close>.
\<close>

record time =
  year :: int
  month :: int
  day :: int
  hour :: int
  minute :: int
  second :: int
  nanosecond :: int

text \<open>
  \<^verbatim>\<open>interface{}\<close> values stored in the ordered map \<^verbatim>\<open>M\<close>: the ones the JSON renderer
  adds itself, and integers, booleans and nil for the fields of a caller.
\<close>

datatype any =
    AnyTime time
  | AnyString string
  | AnyStrings "string list"
  | AnyM "(string \<times> any) list"
  | AnyArray "(string \<times> any) list"
  | AnyInt int
  | AnyBool bool
  | AnyNil

type_synonym MapEntry = "string \<times> any"
type_synonym M = "MapEntry list"

text \<open>A \<^verbatim>\<open>*[]byte\<close> is an address; the slices live in the heap of the world below.\<close>

type_synonym bufref = nat

record Compiled =
  Flag :: int
  OutputType :: OutputType
  Buf :: bufref

record LogEntry =
  Time :: time
  Prefixes :: "string list"
  Level :: LogLevel
  Msg :: string
  Fields :: M
  Compiled :: "Compiled list"

text \<open>
  The \<^verbatim>\<open>sync.Pool\<close> of buffers is the list of the buffers put into it, the latest
  first. \<^verbatim>\<open>putBuf\<close> is \<^verbatim>\<open>pool.Put(b)\<close>.
\<close>

type_synonym pool = "bufref list"

definition putBuf :: "bufref \<Rightarrow> pool \<Rightarrow> pool" where
  "putBuf b p = b # p"

text \<open>The loop of \<^verbatim>\<open>AddCompiled\<close> and \<^verbatim>\<open>GetCompiled\<close>: the first entry that matches.\<close>

fun find_compiled :: "int \<Rightarrow> OutputType \<Rightarrow> Compiled list \<Rightarrow> Compiled option" where
  "find_compiled flags outputType [] = None"
| "find_compiled flags outputType (v # vs) =
     (if Flag v = flags \<and> OutputType v = outputType then Some v
      else find_compiled flags outputType vs)"

definition AddCompiled ::
  "int \<Rightarrow> OutputType \<Rightarrow> bufref \<Rightarrow> LogEntry \<times> pool \<Rightarrow> LogEntry \<times> pool" where
  "AddCompiled flags outputType b s =
     (case s of (entry, p) \<Rightarrow>
        if flags AND F_NotSave \<noteq> 0 then (entry, putBuf b p)
        else (case find_compiled flags outputType (Compiled entry) of
                Some v \<Rightarrow> (entry, putBuf b p)
              | None \<Rightarrow>
                  (entry\<lparr>Compiled := Compiled entry @
                      [\<lparr>Flag = flags, OutputType = outputType, Buf = b\<rparr>]\<rparr>, p)))"

text \<open>The results \<^verbatim>\<open>(buf *[]byte, ok bool)\<close>: a nil \<^verbatim>\<open>buf\<close> is \<open>None\<close>.\<close>

definition GetCompiled :: "int \<Rightarrow> OutputType \<Rightarrow> LogEntry \<Rightarrow> bufref option \<times> bool" where
  "GetCompiled flags outputType entry =
     (if flags AND F_NotSave \<noteq> 0 then (None, False)
      else (case find_compiled flags outputType (Compiled entry) of
              Some v \<Rightarrow> (Some (Buf v), True)
            | None \<Rightarrow> (None, False)))"

text \<open>The cache invariant: no two entries of the cache have the same flags and type.\<close>

definition cache_keys :: "LogEntry \<Rightarrow> (int \<times> OutputType) list" where
  "cache_keys entry = map (\<lambda>v. (Flag v, OutputType v)) (Compiled entry)"

definition cache_inv :: "LogEntry \<Rightarrow> bool" where
  "cache_inv entry = distinct (cache_keys entry)"

section \<open>Failures, errors and the world outside the manager\<close>

text \<open>
  A run-time panic (or the fatal error of the Go runtime when every goroutine is blocked)
  ends the program: functions that can fail this way return \<open>failure + 'a\<close>.
  An \<^verbatim>\<open>error\<close> value is \<open>error option\<close>, \<open>None\<close> for nil; the two sentinels
  of the package are compared by identity, every other error is an \<open>ErrIO\<close>.
\<close>

datatype failure =
    IndexOutOfRange
  | NilDereference
  | Deadlock
  | SendOnClosedChannel
  | CloseOfClosedChannel
  | UnlockOfUnlockedMutex

datatype error = ErrOutputClosed | ErrManagerClosed | ErrIO string

text \<open>
  An \<^verbatim>\<open>io.Writer\<close> is outside the package. A writer here keeps the slices written to
  it, answers every \<^verbatim>\<open>Write\<close> with \<open>write_err\<close>, and counts the \<^verbatim>\<open>Close\<close> calls
  it receives when it is an \<^verbatim>\<open>io.Closer\<close>.
\<close>

type_synonym wref = nat

record writer =
  written :: "string list"
  write_err :: "error option"
  is_closer :: bool
  close_calls :: nat
  close_err :: "error option"

text \<open>
  The heap of byte slices, the buffer pool, the next unused slice address and the
  writers.
\<close>

record xworld =
  bufs :: "bufref \<Rightarrow> string"
  bpool :: pool
  fresh_buf :: bufref
  writers :: "wref \<Rightarrow> writer"

definition Write :: "wref \<Rightarrow> string \<Rightarrow> xworld \<Rightarrow> error option \<times> xworld" where
  "Write wr p x =
     (let wt = writers x wr
      in (write_err wt, x\<lparr>writers := (writers x)(wr := wt\<lparr>written := written wt @ [p]\<rparr>)\<rparr>))"

text \<open>
  \<^verbatim>\<open>getBuf\<close>: \<^verbatim>\<open>pool.Get()\<close> hands out a buffer put earlier (here the latest) or a new
  one, and the buffer is cut to length 0.
\<close>

definition getBuf :: "xworld \<Rightarrow> bufref \<times> xworld" where
  "getBuf x =
     (case bpool x of
        [] \<Rightarrow> (fresh_buf x, x\<lparr>bufs := (bufs x)(fresh_buf x := []), fresh_buf := fresh_buf x + 1\<rparr>)
      | b # p \<Rightarrow> (b, x\<lparr>bufs := (bufs x)(b := []), bpool := p\<rparr>))"

text \<open>\<^verbatim>\<open>AddCompiled\<close> on an entry and the pool of a world.\<close>

definition AddCompiled_x ::
  "int \<Rightarrow> OutputType \<Rightarrow> bufref \<Rightarrow> LogEntry \<Rightarrow> xworld \<Rightarrow> LogEntry \<times> xworld" where
  "AddCompiled_x flags outputType b entry x =
     (case AddCompiled flags outputType b (entry, bpool x) of
        (entry', p') \<Rightarrow> (entry', x\<lparr>bpool := p'\<rparr>))"

section \<open>The renderers\<close>

text \<open>
  The loop of \<^verbatim>\<open>appendInt\<close> over the array \<^verbatim>\<open>b [20]byte\<close>, from the index \<open>ind\<close>
  down. Go's \<^verbatim>\<open>/\<close> truncates towards zero (\<open>sdiv\<close>); \<^verbatim>\<open>byte(...)\<close> keeps the low 8 bits.
  An index outside the array panics.
\<close>

function appendInt_loop ::
  "int \<Rightarrow> int \<Rightarrow> int \<Rightarrow> char list \<Rightarrow> failure + (int \<times> int \<times> char list)" where
  "appendInt_loop n wd ind arr =
     (if n \<ge> 10 \<or> wd > 1 then
        (let r = n sdiv 10 in
         if ind < 0 \<or> ind \<ge> int (length arr) then Inl IndexOutOfRange
         else appendInt_loop r (wd - 1) (ind - 1) (arr[nat ind := char_of (48 + n - r * 10)]))
      else Inr (n, ind, arr))"
  by pat_completeness auto
termination
  by (relation "measure (\<lambda>(n, wd, ind, arr). nat (n - 9) + nat (wd - 1))")
     (auto simp: signed_divide_int_def sgn_if)

declare appendInt_loop.simps [simp del]

definition appendInt :: "string \<Rightarrow> int \<Rightarrow> int \<Rightarrow> failure + string" where
  "appendInt buf n wd =
     (case appendInt_loop n wd 19 (replicate 20 (CHR 0x00)) of
        Inl f \<Rightarrow> Inl f
      | Inr (n', ind, arr) \<Rightarrow>
          if ind < 0 \<or> ind \<ge> int (length arr) then Inl IndexOutOfRange
          else Inr (buf @ drop (nat ind) (arr[nat ind := char_of (48 + n')])))"

definition bindF :: "failure + 'a \<Rightarrow> ('a \<Rightarrow> failure + 'b) \<Rightarrow> failure + 'b" where
  "bindF r k = (case r of Inl f \<Rightarrow> Inl f | Inr v \<Rightarrow> k v)"

text \<open>The three parts of \<^verbatim>\<open>TextLogFunc\<close> before the message, each on the bytes of \<^verbatim>\<open>*buf\<close>.\<close>

definition text_time :: "string \<Rightarrow> time \<Rightarrow> int \<Rightarrow> failure + string" where
  "text_time buf t flags =
     (if flags AND (F_Time OR F_Micro) \<noteq> 0 then
        bindF (appendInt buf (day t) 2) (\<lambda>b1.
        bindF (appendInt (b1 @ ''/'') (month t) 2) (\<lambda>b2.
        bindF (appendInt (b2 @ ''/'') (year t) 4) (\<lambda>b3.
        bindF (appendInt (b3 @ '' '') (hour t) 2) (\<lambda>b4.
        bindF (appendInt (b4 @ '':'') (minute t) 2) (\<lambda>b5.
        bindF (appendInt (b5 @ '':'') (second t) 2) (\<lambda>b6.
        bindF (if flags AND F_Micro \<noteq> 0
               then appendInt (b6 @ ''.'') (nanosecond t sdiv 1000) 6
               else Inr b6) (\<lambda>b7.
        Inr (b7 @ '' ''))))))))
      else Inr buf)"

definition text_prefixes :: "string \<Rightarrow> string list \<Rightarrow> int \<Rightarrow> string" where
  "text_prefixes buf ps flags =
     (if ps \<noteq> [] \<and> flags AND (F_Prefix OR F_LastPrefix) \<noteq> 0 then
        (if flags AND F_LastPrefix \<noteq> 0 then buf @ ''['' @ last ps @ ''] ''
         else foldl (\<lambda>b v. b @ ''['' @ v @ ''] '') buf ps)
      else buf)"

definition text_level :: "string \<Rightarrow> LogLevel \<Rightarrow> int \<Rightarrow> string" where
  "text_level buf l flags =
     (if flags AND F_Level \<noteq> 0 then buf @ ''['' @ LogLevel_String l @ ''] '' else buf)"

text \<open>
  The message and the newline: \<^verbatim>\<open>entry.Msg[len(entry.Msg)-1]\<close> is read whenever
  \<^verbatim>\<open>F_NewLine\<close> is set, and panics on the empty message.
\<close>

definition text_msg :: "string \<Rightarrow> string \<Rightarrow> int \<Rightarrow> failure + string" where
  "text_msg buf msg flags =
     (let b = buf @ msg in
      if flags AND F_NewLine \<noteq> 0 then
        (if msg = [] then Inl IndexOutOfRange
         else if last msg \<noteq> CHR 0x0A then Inr (b @ [CHR 0x0A])
         else Inr b)
      else Inr b)"

definition text_bytes :: "string \<Rightarrow> LogEntry \<Rightarrow> int \<Rightarrow> failure + string" where
  "text_bytes buf entry flags =
     bindF (text_time buf (Time entry) flags) (\<lambda>b1.
       text_msg (text_level (text_prefixes b1 (Prefixes entry) flags) (Level entry) flags)
         (Msg entry) flags)"

definition TextLogFunc ::
  "bufref \<Rightarrow> LogEntry \<Rightarrow> int \<Rightarrow> wref \<Rightarrow> xworld \<Rightarrow> failure + (error option \<times> LogEntry \<times> xworld)" where
  "TextLogFunc buf entry flags wr x =
     bindF (text_bytes (bufs x buf) entry flags) (\<lambda>bytes.
       let x1 = x\<lparr>bufs := (bufs x)(buf := bytes)\<rparr>;
           (entry', x2) = AddCompiled_x flags T_Text buf entry x1;
           (err, x3) = Write wr (bufs x2 buf) x2
       in Inr (err, entry', x3))"

text \<open>
  The ordered map \<^verbatim>\<open>m\<close> that \<^verbatim>\<open>JSONLogFunc\<close> builds before it marshals it.
\<close>

definition json_map :: "LogEntry \<Rightarrow> int \<Rightarrow> M" where
  "json_map entry flags =
     (let m1 = (if flags AND F_Time \<noteq> 0 then [(''time'', AnyTime (Time entry))] else []);
          m2 = (if Prefixes entry \<noteq> [] \<and> flags AND (F_Prefix OR F_LastPrefix) \<noteq> 0 then
                  (if flags AND F_LastPrefix \<noteq> 0
                   then m1 @ [(''prefix'', AnyString (last (Prefixes entry)))]
                   else m1 @ [(''prefix'', AnyStrings (Prefixes entry))])
                else m1);
          m3 = (if flags AND F_Level \<noteq> 0
                then m2 @ [(''level'', AnyString (LogLevel_String (Level entry)))] else m2);
          m4 = (if Fields entry \<noteq> [] \<and> flags AND (F_Fields OR F_Fields_A OR F_Fields_B) \<noteq> 0 then
                  (if flags AND F_Fields_A \<noteq> 0 then m3 @ [(''fields'', AnyM (Fields entry))]
                   else if flags AND F_Fields \<noteq> 0 then m3 @ Fields entry
                   else if flags AND F_Fields_B \<noteq> 0 then m3 @ [(''fields'', AnyArray (Fields entry))]
                   else m3)
                else m3)
      in m4 @ [(''msg'', AnyString (Msg entry))])"

text \<open>
  \<^verbatim>\<open>json.Marshal\<close> is a parameter. The local slice \<^verbatim>\<open>data\<close> gets a new address,
  which \<^verbatim>\<open>&data\<close> hands to the cache: the newline appended afterwards is seen
  through that address too.
\<close>

definition JSONLogFunc ::
  "(M \<Rightarrow> string) \<Rightarrow> bufref \<Rightarrow> LogEntry \<Rightarrow> int \<Rightarrow> wref \<Rightarrow> xworld
     \<Rightarrow> failure + (error option \<times> LogEntry \<times> xworld)" where
  "JSONLogFunc marshal buf entry flags wr x =
     (let data = fresh_buf x;
          x1 = x\<lparr>bufs := (bufs x)(data := marshal (json_map entry flags)),
                 fresh_buf := fresh_buf x + 1\<rparr>;
          (entry1, x2) = AddCompiled_x flags T_JSON data entry x1;
          (entry2, x3) = AddCompiled_x F_NotSave T_JSON buf entry1 x2;
          x4 = (if flags AND F_NewLine \<noteq> 0
                then x3\<lparr>bufs := (bufs x3)(data := bufs x3 data @ [CHR 0x0A])\<rparr> else x3);
          (err, x5) = Write wr (bufs x4 data) x4
      in Inr (err, entry2, x5))"

section \<open>Outputs\<close>

text \<open>
  The struct \<^verbatim>\<open>outputWrapper\<close>; its fields carry the receiver's name \<^verbatim>\<open>o\<close> as a
  prefix. A function field is \<open>None\<close> when it is nil.
\<close>

record outputWrapper =
  o_add :: int
  o_w :: wref
  o_close :: bool
  o_flags :: int
  o_logLevel :: LogLevel
  o_outputType :: OutputType
  o_LogFunc ::
    "(bufref \<Rightarrow> LogEntry \<Rightarrow> int \<Rightarrow> wref \<Rightarrow> xworld
        \<Rightarrow> failure + (error option \<times> LogEntry \<times> xworld)) option"
  o_CloseFunc :: "(wref \<Rightarrow> bool \<Rightarrow> xworld \<Rightarrow> error option \<times> xworld) option"

definition outputWrapper_OnAdd :: "outputWrapper \<Rightarrow> outputWrapper" where
  "outputWrapper_OnAdd ow = ow\<lparr>o_add := o_add ow + 1\<rparr>"

definition outputWrapper_LogClose ::
  "outputWrapper \<Rightarrow> xworld \<Rightarrow> error option \<times> outputWrapper \<times> xworld" where
  "outputWrapper_LogClose ow x =
     (if o_add ow > 1 then (None, ow\<lparr>o_add := o_add ow - 1\<rparr>, x)
      else (case o_CloseFunc ow of
              Some f \<Rightarrow> (case f (o_w ow) (o_close ow) x of (err, x') \<Rightarrow> (err, ow, x'))
            | None \<Rightarrow> (None, ow, x)))"

definition outputWrapper_Log ::
  "outputWrapper \<Rightarrow> LogEntry \<Rightarrow> xworld \<Rightarrow> failure + (error option \<times> LogEntry \<times> xworld)" where
  "outputWrapper_Log ow entry x =
     (case o_LogFunc ow of
        Some f \<Rightarrow>
          if Permits (o_logLevel ow) (Level entry) then
            (case GetCompiled (o_flags ow) (o_outputType ow) entry of
               (bo, ok) \<Rightarrow>
                 if \<not> ok then
                   (case getBuf x of (buf, x1) \<Rightarrow> f buf entry (o_flags ow) (o_w ow) x1)
                 else
                   (case bo of
                      None \<Rightarrow> Inl NilDereference
                    | Some buf \<Rightarrow>
                        (case Write (o_w ow) (bufs x buf) x of (err, x1) \<Rightarrow> Inr (err, entry, x1))))
          else Inr (None, entry, x)
      | None \<Rightarrow> Inr (None, entry, x))"

definition DefaultCloseFunc :: "wref \<Rightarrow> bool \<Rightarrow> xworld \<Rightarrow> error option \<times> xworld" where
  "DefaultCloseFunc wr cl x =
     (let wt = writers x wr in
      if cl \<and> is_closer wt
      then (close_err wt, x\<lparr>writers := (writers x)(wr := wt\<lparr>close_calls := close_calls wt + 1\<rparr>)\<rparr>)
      else (None, x))"

definition NewTextOutput :: "wref \<Rightarrow> int \<Rightarrow> bool \<Rightarrow> outputWrapper" where
  "NewTextOutput wr flags cl =
     \<lparr>o_add = 0, o_w = wr, o_close = cl, o_flags = flags, o_logLevel = L_Info,
      o_outputType = T_Text, o_LogFunc = Some TextLogFunc, o_CloseFunc = Some DefaultCloseFunc\<rparr>"

definition NewJSONOutput :: "(M \<Rightarrow> string) \<Rightarrow> wref \<Rightarrow> int \<Rightarrow> bool \<Rightarrow> outputWrapper" where
  "NewJSONOutput marshal wr flags cl =
     \<lparr>o_add = 0, o_w = wr, o_close = cl, o_flags = flags, o_logLevel = L_Info,
      o_outputType = T_JSON, o_LogFunc = Some (JSONLogFunc marshal),
      o_CloseFunc = Some DefaultCloseFunc\<rparr>"

text \<open>
  The methods of the interface \<^verbatim>\<open>Output\<close> that the manager calls, for outputs named
  by references of type \<open>'o\<close> into a heap of type \<open>'h\<close>. \<^verbatim>\<open>Log\<close> may also change the
  entry it is given and the world of buffers and writers.
\<close>

record ('o, 'h) Output_ops =
  OnAdd :: "'o \<Rightarrow> 'h \<times> xworld \<Rightarrow> 'h \<times> xworld"
  Log :: "'o \<Rightarrow> LogEntry \<Rightarrow> 'h \<times> xworld \<Rightarrow> failure + (error option \<times> LogEntry \<times> 'h \<times> xworld)"
  LogClose :: "'o \<Rightarrow> 'h \<times> xworld \<Rightarrow> error option \<times> 'h \<times> xworld"

text \<open>The interface as \<^verbatim>\<open>*outputWrapper\<close> implements it, on a heap of wrappers.\<close>

definition wrapper_ops :: "(nat, nat \<Rightarrow> outputWrapper) Output_ops" where
  "wrapper_ops =
     \<lparr>OnAdd = (\<lambda>a hx. case hx of (h, x) \<Rightarrow> (h(a := outputWrapper_OnAdd (h a)), x)),
      Log = (\<lambda>a entry hx. case hx of (h, x) \<Rightarrow>
               bindF (outputWrapper_Log (h a) entry x)
                 (\<lambda>r. case r of (err, entry', x') \<Rightarrow> Inr (err, entry', h, x'))),
      LogClose = (\<lambda>a hx. case hx of (h, x) \<Rightarrow>
               (case outputWrapper_LogClose (h a) x of
                  (err, ow', x') \<Rightarrow> (err, h(a := ow'), x')))\<rparr>"

section \<open>The manager\<close>

text \<open>
  An item of the channel \<^verbatim>\<open>m.ch\<close>: a \<^verbatim>\<open>*LogEntry\<close> (an address into the heap of
  entries, \<open>None\<close> for nil) and a \<^verbatim>\<open>chan struct{}\<close> (the name of a channel, \<open>None\<close>
  for nil). The fields \<^verbatim>\<open>entry\<close> and \<^verbatim>\<open>done\<close> carry the prefix \<open>me\<close>.
\<close>

record managerEntry =
  me_entry :: "nat option"
  me_done :: "nat option"

text \<open>
  The manager (\<^verbatim>\<open>outputs\<close>, \<^verbatim>\<open>mu\<close>, \<^verbatim>\<open>b\<close>, \<^verbatim>\<open>ch\<close>, with the prefix \<open>m\<close>) and what it
  works on: whether \<^verbatim>\<open>m.ch\<close> has been closed, the item the worker goroutine has received
  and not yet finished, the \<^verbatim>\<open>done\<close> channels closed so far, the next unused channel
  name, the heap of log entries, the heap of outputs and the world of buffers and
  writers. \<open>m_mu\<close> says that the mutex is held by a caller of \<^verbatim>\<open>Lock\<close>; inside one
  operation of the manager the mutex is taken and released again.
\<close>

record ('o, 'h) system =
  m_outputs :: "'o list"
  m_mu :: bool
  m_b :: bool
  m_ch :: "managerEntry list"
  m_ch_closed :: bool
  w_item :: "managerEntry option"
  closed_chans :: "nat set"
  next_chan :: nat
  ents :: "nat \<Rightarrow> LogEntry"
  heap :: 'h
  xw :: xworld

text \<open>The capacity of \<^verbatim>\<open>make(chan managerEntry, 10)\<close>.\<close>

definition ch_cap :: nat where "ch_cap = 10"

definition newManager :: "'h \<Rightarrow> xworld \<Rightarrow> (nat \<Rightarrow> LogEntry) \<Rightarrow> ('o, 'h) system" where
  "newManager h x es =
     \<lparr>m_outputs = [], m_mu = False, m_b = False, m_ch = [], m_ch_closed = False,
      w_item = None, closed_chans = {}, next_chan = 0, ents = es, heap = h, xw = x\<rparr>"

subsection \<open>The worker goroutine\<close>

text \<open>
  The first loop of a delivery pass, from the index \<open>i\<close> on: \<^verbatim>\<open>Log\<close> is called on
  every output in order, and \<open>rm\<close> collects the indices of those that answer
  \<^verbatim>\<open>ErrOutputClosed\<close>.
\<close>

fun log_outputs ::
  "('o, 'h) Output_ops \<Rightarrow> 'o list \<Rightarrow> nat \<Rightarrow> LogEntry \<Rightarrow> 'h \<times> xworld
     \<Rightarrow> failure + (nat list \<times> LogEntry \<times> 'h \<times> xworld)" where
  "log_outputs ops [] i entry hx = Inr ([], entry, hx)"
| "log_outputs ops (out # outs) i entry hx =
     (case Log ops out entry hx of
        Inl f \<Rightarrow> Inl f
      | Inr (err, entry', hx') \<Rightarrow>
          (case log_outputs ops outs (Suc i) entry' hx' of
             Inl f \<Rightarrow> Inl f
           | Inr (rm, entry'', hx'') \<Rightarrow>
               Inr ((if err = Some ErrOutputClosed then [i] else []) @ rm, entry'', hx'')))"

text \<open>
  The second loop: \<^verbatim>\<open>m.outputs[i-r] = m.outputs[len(m.outputs)-1]\<close>, then the slice
  loses its last element and \<open>r\<close> grows. The indices are Go \<^verbatim>\<open>int\<close>s, so \<open>i - r\<close>
  below 0 panics like an index beyond the slice.
\<close>

fun remove_closed :: "nat list \<Rightarrow> nat \<Rightarrow> 'o list \<Rightarrow> failure + 'o list" where
  "remove_closed [] r outs = Inr outs"
| "remove_closed (i # rm) r outs =
     (if outs = [] \<or> i < r \<or> i - r \<ge> length outs then Inl IndexOutOfRange
      else remove_closed rm (Suc r) (butlast (outs[i - r := last outs])))"

definition put_compiled :: "Compiled list \<Rightarrow> xworld \<Rightarrow> xworld" where
  "put_compiled cs x = x\<lparr>bpool := foldl (\<lambda>p c. putBuf (Buf c) p) (bpool x) cs\<rparr>"

text \<open>
  One delivery pass for the entry at the address \<open>a\<close>: both loops under the mutex, then
  every buffer of the entry's cache goes back to the pool.
\<close>

definition deliver :: "('o, 'h) Output_ops \<Rightarrow> nat \<Rightarrow> ('o, 'h) system \<Rightarrow> failure + ('o, 'h) system" where
  "deliver ops a st =
     (case log_outputs ops (m_outputs st) 0 (ents st a) (heap st, xw st) of
        Inl f \<Rightarrow> Inl f
      | Inr (rm, entry', h', x') \<Rightarrow>
          (case remove_closed rm 0 (m_outputs st) of
             Inl f \<Rightarrow> Inl f
           | Inr outs' \<Rightarrow>
               Inr (st\<lparr>m_outputs := outs', ents := (ents st)(a := entry'), heap := h',
                       xw := put_compiled (Compiled entry') x'\<rparr>)))"

text \<open>\<^verbatim>\<open>close(e.done)\<close> when \<^verbatim>\<open>e.done\<close> is not nil.\<close>

definition signal :: "nat option \<Rightarrow> ('o, 'h) system \<Rightarrow> failure + ('o, 'h) system" where
  "signal d st =
     (case d of
        None \<Rightarrow> Inr st
      | Some c \<Rightarrow>
          if c \<in> closed_chans st then Inl CloseOfClosedChannel
          else Inr (st\<lparr>closed_chans := insert c (closed_chans st)\<rparr>))"

text \<open>The body of \<^verbatim>\<open>for e := range m.ch\<close> for the item \<open>e\<close> the worker holds.\<close>

definition worker_process ::
  "('o, 'h) Output_ops \<Rightarrow> managerEntry \<Rightarrow> ('o, 'h) system \<Rightarrow> failure + ('o, 'h) system" where
  "worker_process ops e st =
     bindF (case me_entry e of None \<Rightarrow> Inr st | Some a \<Rightarrow> deliver ops a st)
       (\<lambda>st1. bindF (signal (me_done e) st1) (\<lambda>st2. Inr (st2\<lparr>w_item := None\<rparr>)))"

text \<open>
  The worker moves in two kinds of steps: it receives the next item of the channel, or
  it processes the item it holds. It cannot move when the channel is empty, or when
  the item it holds has an entry and the mutex is held by a caller of \<^verbatim>\<open>Lock\<close>.
\<close>

definition worker_enabled :: "('o, 'h) system \<Rightarrow> bool" where
  "worker_enabled st =
     (case w_item st of
        None \<Rightarrow> m_ch st \<noteq> []
      | Some e \<Rightarrow> me_entry e = None \<or> \<not> m_mu st)"

definition worker_step :: "('o, 'h) Output_ops \<Rightarrow> ('o, 'h) system \<Rightarrow> failure + ('o, 'h) system" where
  "worker_step ops st =
     (case w_item st of
        None \<Rightarrow>
          (case m_ch st of
             [] \<Rightarrow> Inr st
           | e # q \<Rightarrow> Inr (st\<lparr>m_ch := q, w_item := Some e\<rparr>))
      | Some e \<Rightarrow> worker_process ops e st)"

definition pending :: "('o, 'h) system \<Rightarrow> nat" where
  "pending st = 2 * length (m_ch st) + (case w_item st of None \<Rightarrow> 0 | Some e \<Rightarrow> 1)"

lemma deliver_queue:
  "deliver ops a st = Inr st' \<Longrightarrow> m_ch st' = m_ch st"
  by (auto simp: deliver_def split: sum.splits prod.splits)

lemma signal_queue:
  "signal d st = Inr st' \<Longrightarrow> m_ch st' = m_ch st"
  by (auto simp: signal_def split: option.splits if_splits)

lemma worker_process_queue:
  assumes "worker_process ops e st = Inr st'"
  shows "m_ch st' = m_ch st \<and> w_item st' = None"
proof -
  from assms obtain st1 st2 where
    d: "(case me_entry e of None \<Rightarrow> Inr st | Some a \<Rightarrow> deliver ops a st) = Inr st1" and
    s: "signal (me_done e) st1 = Inr st2" and
    r: "st' = st2\<lparr>w_item := None\<rparr>"
    by (auto simp: worker_process_def bindF_def split: sum.splits)
  from d have "m_ch st1 = m_ch st"
    by (auto split: option.splits dest: deliver_queue)
  with signal_queue [OF s] r show ?thesis by simp
qed

lemma worker_step_pending:
  "worker_enabled st \<Longrightarrow> worker_step ops st = Inr st' \<Longrightarrow> pending st' < pending st"
  by (auto simp: worker_enabled_def worker_step_def pending_def
      split: option.splits list.splits dest: worker_process_queue)

subsection \<open>Waiting callers\<close>

text \<open>
  A caller that waits lets the worker run. \<^verbatim>\<open><-e.done\<close> returns once the channel is
  closed; \<^verbatim>\<open>m.ch <- e\<close> goes on once the channel has room. When the caller waits and the
  worker cannot move, every goroutine is blocked.
\<close>

function await_done ::
  "('o, 'h) Output_ops \<Rightarrow> nat \<Rightarrow> ('o, 'h) system \<Rightarrow> failure + ('o, 'h) system" where
  "await_done ops c st =
     (if c \<in> closed_chans st then Inr st
      else if worker_enabled st then
        (case worker_step ops st of Inl f \<Rightarrow> Inl f | Inr st' \<Rightarrow> await_done ops c st')
      else Inl Deadlock)"
  by pat_completeness auto
termination
  by (relation "measure (\<lambda>(ops, c, st). pending st)") (auto dest: worker_step_pending)

declare await_done.simps [simp del]

function await_room ::
  "('o, 'h) Output_ops \<Rightarrow> ('o, 'h) system \<Rightarrow> failure + ('o, 'h) system" where
  "await_room ops st =
     (if length (m_ch st) < ch_cap then Inr st
      else if worker_enabled st then
        (case worker_step ops st of Inl f \<Rightarrow> Inl f | Inr st' \<Rightarrow> await_room ops st')
      else Inl Deadlock)"
  by pat_completeness auto
termination
  by (relation "measure (\<lambda>(ops, st). pending st)") (auto dest: worker_step_pending)

declare await_room.simps [simp del]

text \<open>\<^verbatim>\<open>m.ch <- e\<close>: a send on a closed channel panics.\<close>

definition send :: "('o, 'h) Output_ops \<Rightarrow> managerEntry \<Rightarrow> ('o, 'h) system \<Rightarrow> failure + ('o, 'h) system" where
  "send ops e st =
     (if m_ch_closed st then Inl SendOnClosedChannel
      else bindF (await_room ops st) (\<lambda>st'. Inr (st'\<lparr>m_ch := m_ch st' @ [e]\<rparr>)))"

subsection \<open>The operations of the manager, for one caller\<close>

text \<open>
  An operation that takes the mutex while the caller holds it through \<^verbatim>\<open>Lock\<close> never
  goes on.
\<close>

definition addOutput :: "('o, 'h) Output_ops \<Rightarrow> 'o \<Rightarrow> ('o, 'h) system \<Rightarrow> failure + ('o, 'h) system" where
  "addOutput ops out st =
     (if m_b st then Inr st
      else if m_mu st then Inl Deadlock
      else (case OnAdd ops out (heap st, xw st) of
              (h', x') \<Rightarrow> Inr (st\<lparr>m_outputs := m_outputs st @ [out], heap := h', xw := x'\<rparr>)))"

text \<open>The loop of \<^verbatim>\<open>removeOutput\<close>: the first index that holds the output.\<close>

fun index_of :: "'o \<Rightarrow> 'o list \<Rightarrow> nat \<Rightarrow> nat option" where
  "index_of out [] i = None"
| "index_of out (v # vs) i = (if v = out then Some i else index_of out vs (Suc i))"

definition removeOutput ::
  "'o \<Rightarrow> ('o, 'h) system \<Rightarrow> failure + (bool \<times> ('o, 'h) system)" where
  "removeOutput out st =
     (if m_mu st then Inl Deadlock
      else (case index_of out (m_outputs st) 0 of
              Some i \<Rightarrow>
                Inr (True, st\<lparr>m_outputs := butlast ((m_outputs st)[i := last (m_outputs st)])\<rparr>)
            | None \<Rightarrow> Inr (False, st)))"

definition log ::
  "('o, 'h) Output_ops \<Rightarrow> nat option \<Rightarrow> bool \<Rightarrow> ('o, 'h) system
     \<Rightarrow> failure + (error option \<times> ('o, 'h) system)" where
  "log ops entry block st =
     (let e = \<lparr>me_entry = entry, me_done = (if block then Some (next_chan st) else None)\<rparr>;
          st0 = (if block then st\<lparr>next_chan := Suc (next_chan st)\<rparr> else st)
      in if m_b st0 then Inr (Some ErrManagerClosed, st0)
         else bindF (send ops e st0) (\<lambda>st1.
                if block then bindF (await_done ops (next_chan st) st1) (\<lambda>st2. Inr (None, st2))
                else Inr (None, st1)))"

text \<open>The loop of \<^verbatim>\<open>Close\<close>: every \<^verbatim>\<open>LogClose\<close> is called and its result dropped.\<close>

fun close_outputs :: "('o, 'h) Output_ops \<Rightarrow> 'o list \<Rightarrow> 'h \<times> xworld \<Rightarrow> 'h \<times> xworld" where
  "close_outputs ops [] hx = hx"
| "close_outputs ops (v # vs) hx = close_outputs ops vs (snd (LogClose ops v hx))"

definition Close ::
  "('o, 'h) Output_ops \<Rightarrow> ('o, 'h) system \<Rightarrow> failure + (error option \<times> ('o, 'h) system)" where
  "Close ops st =
     (let e = \<lparr>me_entry = None, me_done = Some (next_chan st)\<rparr>;
          st0 = st\<lparr>next_chan := Suc (next_chan st)\<rparr>
      in if m_b st0 then Inr (Some ErrManagerClosed, st0)
         else bindF (send ops e (st0\<lparr>m_b := True\<rparr>)) (\<lambda>st1.
              if m_ch_closed st1 then Inl CloseOfClosedChannel
              else bindF (await_done ops (next_chan st) (st1\<lparr>m_ch_closed := True\<rparr>)) (\<lambda>st2.
                if m_mu st2 then Inl Deadlock
                else (case close_outputs ops (m_outputs st2) (heap st2, xw st2) of
                        (h', x') \<Rightarrow>
                          Inr (None, st2\<lparr>m_outputs := [], heap := h', xw := x'\<rparr>)))))"

definition Lock :: "('o, 'h) system \<Rightarrow> failure + ('o, 'h) system" where
  "Lock st = (if m_mu st then Inl Deadlock else Inr (st\<lparr>m_mu := True\<rparr>))"

definition Unlock :: "('o, 'h) system \<Rightarrow> failure + ('o, 'h) system" where
  "Unlock st = (if m_mu st then Inr (st\<lparr>m_mu := False\<rparr>) else Inl UnlockOfUnlockedMutex)"

section \<open>Recording the calls the manager makes\<close>

text \<open>
  To say which methods of which outputs the manager has called, the outputs are
  wrapped: \<open>traced ops\<close> behaves as \<open>ops\<close> and appends every call of a method, with its
  result, to a list kept beside the heap of outputs.
\<close>

datatype 'o call =
    Call_OnAdd 'o
  | Call_Log 'o LogEntry "error option"
  | Call_LogClose 'o "error option"

definition traced :: "('o, 'h) Output_ops \<Rightarrow> ('o, 'h \<times> 'o call list) Output_ops" where
  "traced ops =
     \<lparr>OnAdd = (\<lambda>out hx. case hx of ((h, tr), x) \<Rightarrow>
                (case OnAdd ops out (h, x) of (h', x') \<Rightarrow> ((h', tr @ [Call_OnAdd out]), x'))),
      Log = (\<lambda>out entry hx. case hx of ((h, tr), x) \<Rightarrow>
                (case Log ops out entry (h, x) of
                   Inl f \<Rightarrow> Inl f
                 | Inr (err, entry', h', x') \<Rightarrow>
                     Inr (err, entry', (h', tr @ [Call_Log out entry err]), x'))),
      LogClose = (\<lambda>out hx. case hx of ((h, tr), x) \<Rightarrow>
                (case LogClose ops out (h, x) of
                   (err, h', x') \<Rightarrow> (err, (h', tr @ [Call_LogClose out err]), x')))\<rparr>"

text \<open>The output on which a recorded call is a call of \<^verbatim>\<open>Log\<close>.\<close>

fun logged :: "'o call \<Rightarrow> 'o option" where
  "logged (Call_Log out entry err) = Some out"
| "logged (Call_OnAdd out) = None"
| "logged (Call_LogClose out err) = None"

text \<open>The results of the \<^verbatim>\<open>LogClose\<close> calls of the loop of \<^verbatim>\<open>Close\<close>, in order.\<close>

fun close_results :: "('o, 'h) Output_ops \<Rightarrow> 'o list \<Rightarrow> 'h \<times> xworld \<Rightarrow> error option list" where
  "close_results ops [] hx = []"
| "close_results ops (v # vs) hx = fst (LogClose ops v hx) # close_results ops vs (snd (LogClose ops v hx))"

section \<open>Ranges of machine integers\<close>

text \<open>A Go \<^verbatim>\<open>int\<close> of 64 bits, and a time whose components are such integers.\<close>

definition go_int :: "int \<Rightarrow> bool" where
  "go_int n = (- (2 ^ 63) \<le> n \<and> n < 2 ^ 63)"

definition time_ints :: "time \<Rightarrow> bool" where
  "time_ints t =
     (go_int (year t) \<and> go_int (month t) \<and> go_int (day t) \<and> go_int (hour t) \<and>
      go_int (minute t) \<and> go_int (second t) \<and> go_int (nanosecond t))"

section \<open>The three ways to embed the fields, in the words of the specification\<close>

definition top_level_keys :: "M \<Rightarrow> M" where
  "top_level_keys fs = fs"

definition nested_object :: "M \<Rightarrow> M" where
  "nested_object fs = [(''fields'', AnyM fs)]"

definition nested_array :: "M \<Rightarrow> M" where
  "nested_array fs = [(''fields'', AnyArray fs)]"

section \<open>Concurrent callers\<close>

text \<open>
  Any number of goroutines call the manager while the worker goroutine runs. Each
  calling goroutine has a number and makes one call: \<^verbatim>\<open>log(entry, block)\<close> or
  \<^verbatim>\<open>Close()\<close>. A run is a list of actions, each one atomic step of one goroutine:
  the steps of \<^verbatim>\<open>log\<close> are the load of the closed flag (with the allocation of the
  \<^verbatim>\<open>done\<close> channel before it), the send on \<^verbatim>\<open>m.ch\<close> and the receive from \<^verbatim>\<open>done\<close>;
  \<^verbatim>\<open>Close\<close> also stores the flag, closes \<^verbatim>\<open>m.ch\<close> and, at the end, closes the
  outputs under the mutex. The worker receives an item or processes the item it
  holds. \<^verbatim>\<open>Lock\<close>, \<^verbatim>\<open>Unlock\<close>, \<^verbatim>\<open>addOutput\<close> and \<^verbatim>\<open>removeOutput\<close> are single steps.
  A step that is blocked, or that panics, cannot be taken: a run ends there.
\<close>

datatype request = LogCall "nat option" bool | CloseCall

text \<open>
  Where a calling goroutine stands: before its call, about to store the closed flag,
  about to send its item, about to close \<^verbatim>\<open>m.ch\<close>, waiting for its \<^verbatim>\<open>done\<close> channel,
  about to close the outputs, or returned with a result.
\<close>

datatype pc =
    Idle
  | Storing managerEntry
  | Sending managerEntry
  | Closing nat
  | Waiting nat
  | Finishing
  | Done "error option"

datatype 'o action =
    Call nat
  | Store nat
  | Send nat
  | CloseCh nat
  | Wait nat
  | Finish nat
  | Recv
  | Process
  | DoLock
  | DoUnlock
  | Add 'o
  | Remove 'o

text \<open>
  A configuration: the manager and its world, the place of every calling goroutine,
  and history that the program does not keep: the number of steps so far, for every
  goroutine the step at which it called, at which its item entered the channel, at
  which the worker finished its item, and at which it returned, and the goroutines
  whose items are held by the worker or wait in the channel, in this order.
\<close>

record ('o, 'h) conf =
  sys :: "('o, 'h) system"
  pcs :: "nat \<Rightarrow> pc"
  owners :: "nat list"
  clock :: nat
  called :: "nat \<Rightarrow> nat option"
  sent :: "nat \<Rightarrow> nat option"
  passed :: "nat \<Rightarrow> nat option"
  returned :: "nat \<Rightarrow> nat option"

definition init :: "'h \<Rightarrow> xworld \<Rightarrow> (nat \<Rightarrow> LogEntry) \<Rightarrow> ('o, 'h) conf" where
  "init h x es =
     \<lparr>sys = newManager h x es, pcs = (\<lambda>t. Idle), owners = [], clock = 0,
      called = (\<lambda>t. None), sent = (\<lambda>t. None), passed = (\<lambda>t. None),
      returned = (\<lambda>t. None)\<rparr>"

text \<open>The item a call builds, with the channel it allocates.\<close>

definition item_of :: "request \<Rightarrow> nat \<Rightarrow> managerEntry" where
  "item_of cl ch =
     (case cl of
        LogCall entry block \<Rightarrow> \<lparr>me_entry = entry, me_done = (if block then Some ch else None)\<rparr>
      | CloseCall \<Rightarrow> \<lparr>me_entry = None, me_done = Some ch\<rparr>)"

definition allocates :: "request \<Rightarrow> bool" where
  "allocates cl = (case cl of LogCall entry block \<Rightarrow> block | CloseCall \<Rightarrow> True)"

definition fire ::
  "('o, 'h) Output_ops \<Rightarrow> (nat \<Rightarrow> request) \<Rightarrow> 'o action \<Rightarrow> ('o, 'h) conf \<Rightarrow> ('o, 'h) conf option" where
  "fire ops prog a c =
     (let s = sys c; now = clock c in
      case a of
        Call t \<Rightarrow>
          (case pcs c t of
             Idle \<Rightarrow>
               (let e = item_of (prog t) (next_chan s);
                    s0 = (if allocates (prog t) then s\<lparr>next_chan := Suc (next_chan s)\<rparr> else s)
                in if m_b s0
                   then Some (c\<lparr>sys := s0, pcs := (pcs c)(t := Done (Some ErrManagerClosed)),
                               called := (called c)(t := Some now),
                               returned := (returned c)(t := Some now), clock := Suc now\<rparr>)
                   else Some (c\<lparr>sys := s0,
                               pcs := (pcs c)(t := (case prog t of LogCall entry block \<Rightarrow> Sending e
                                                     | CloseCall \<Rightarrow> Storing e)),
                               called := (called c)(t := Some now), clock := Suc now\<rparr>))
           | _ \<Rightarrow> None)
      | Store t \<Rightarrow>
          (case pcs c t of
             Storing e \<Rightarrow>
               Some (c\<lparr>sys := s\<lparr>m_b := True\<rparr>, pcs := (pcs c)(t := Sending e), clock := Suc now\<rparr>)
           | _ \<Rightarrow> None)
      | Send t \<Rightarrow>
          (case pcs c t of
             Sending e \<Rightarrow>
               if m_ch_closed s \<or> \<not> length (m_ch s) < ch_cap then None
               else Some (c\<lparr>sys := s\<lparr>m_ch := m_ch s @ [e]\<rparr>,
                           owners := owners c @ [t],
                           sent := (sent c)(t := Some now),
                           pcs := (pcs c)(t :=
                             (case me_done e of
                                None \<Rightarrow> Done None
                              | Some ch \<Rightarrow> (case prog t of LogCall entry block \<Rightarrow> Waiting ch
                                            | CloseCall \<Rightarrow> Closing ch))),
                           returned := (case me_done e of
                                          None \<Rightarrow> (returned c)(t := Some now)
                                        | Some ch \<Rightarrow> returned c),
                           clock := Suc now\<rparr>)
           | _ \<Rightarrow> None)
      | CloseCh t \<Rightarrow>
          (case pcs c t of
             Closing ch \<Rightarrow>
               if m_ch_closed s then None
               else Some (c\<lparr>sys := s\<lparr>m_ch_closed := True\<rparr>, pcs := (pcs c)(t := Waiting ch),
                           clock := Suc now\<rparr>)
           | _ \<Rightarrow> None)
      | Wait t \<Rightarrow>
          (case pcs c t of
             Waiting ch \<Rightarrow>
               if ch \<in> closed_chans s then
                 (case prog t of
                    LogCall entry block \<Rightarrow>
                      Some (c\<lparr>pcs := (pcs c)(t := Done None),
                             returned := (returned c)(t := Some now), clock := Suc now\<rparr>)
                  | CloseCall \<Rightarrow> Some (c\<lparr>pcs := (pcs c)(t := Finishing), clock := Suc now\<rparr>))
               else None
           | _ \<Rightarrow> None)
      | Finish t \<Rightarrow>
          (case pcs c t of
             Finishing \<Rightarrow>
               if m_mu s then None
               else (case close_outputs ops (m_outputs s) (heap s, xw s) of
                       (h', x') \<Rightarrow>
                         Some (c\<lparr>sys := s\<lparr>m_outputs := [], heap := h', xw := x'\<rparr>,
                                pcs := (pcs c)(t := Done None),
                                returned := (returned c)(t := Some now), clock := Suc now\<rparr>))
           | _ \<Rightarrow> None)
      | Recv \<Rightarrow>
          (case w_item s of
             None \<Rightarrow>
               (case m_ch s of
                  [] \<Rightarrow> None
                | e # q \<Rightarrow> Some (c\<lparr>sys := s\<lparr>m_ch := q, w_item := Some e\<rparr>, clock := Suc now\<rparr>))
           | Some e \<Rightarrow> None)
      | Process \<Rightarrow>
          (case w_item s of
             None \<Rightarrow> None
           | Some e \<Rightarrow>
               if me_entry e \<noteq> None \<and> m_mu s then None
               else (case worker_process ops e s of
                       Inl f \<Rightarrow> None
                     | Inr s' \<Rightarrow>
                         (case owners c of
                            [] \<Rightarrow> Some (c\<lparr>sys := s', clock := Suc now\<rparr>)
                          | u # us \<Rightarrow>
                              Some (c\<lparr>sys := s', owners := us,
                                     passed := (passed c)(u := Some now), clock := Suc now\<rparr>))))
      | DoLock \<Rightarrow>
          (case Lock s of Inl f \<Rightarrow> None | Inr s' \<Rightarrow> Some (c\<lparr>sys := s', clock := Suc now\<rparr>))
      | DoUnlock \<Rightarrow>
          (case Unlock s of Inl f \<Rightarrow> None | Inr s' \<Rightarrow> Some (c\<lparr>sys := s', clock := Suc now\<rparr>))
      | Add out \<Rightarrow>
          (case addOutput ops out s of
             Inl f \<Rightarrow> None
           | Inr s' \<Rightarrow> Some (c\<lparr>sys := s', clock := Suc now\<rparr>))
      | Remove out \<Rightarrow>
          (case removeOutput out s of
             Inl f \<Rightarrow> None
           | Inr (r, s') \<Rightarrow> Some (c\<lparr>sys := s', clock := Suc now\<rparr>)))"

text \<open>A run: the actions are taken one after the other.\<close>

fun run ::
  "('o, 'h) Output_ops \<Rightarrow> (nat \<Rightarrow> request) \<Rightarrow> 'o action list \<Rightarrow> ('o, 'h) conf \<Rightarrow> ('o, 'h) conf option" where
  "run ops prog [] c = Some c"
| "run ops prog (a # as) c =
     (case fire ops prog a c of None \<Rightarrow> None | Some c' \<Rightarrow> run ops prog as c')"

section \<open>Invariants of the runs\<close>

text \<open>The items that were sent and are not yet finished, the oldest first.\<close>

definition inflight :: "('o, 'h) system \<Rightarrow> managerEntry list" where
  "inflight s = (case w_item s of None \<Rightarrow> [] | Some e \<Rightarrow> [e]) @ m_ch s"

text \<open>The \<^verbatim>\<open>done\<close> channel a goroutine has allocated and not yet received from.\<close>

fun chan_at :: "pc \<Rightarrow> nat option" where
  "chan_at (Storing e) = me_done e"
| "chan_at (Sending e) = me_done e"
| "chan_at (Closing ch) = Some ch"
| "chan_at (Waiting ch) = Some ch"
| "chan_at Idle = None"
| "chan_at Finishing = None"
| "chan_at (Done r) = None"

definition inv_time :: "('o, 'h) conf \<Rightarrow> bool" where
  "inv_time c =
     (\<forall>t n. called c t = Some n \<or> sent c t = Some n \<or> passed c t = Some n \<or> returned c t = Some n
        \<longrightarrow> n < clock c)"

definition inv_chan :: "('o, 'h) conf \<Rightarrow> bool" where
  "inv_chan c =
     ((\<forall>t ch. chan_at (pcs c t) = Some ch \<longrightarrow> ch < next_chan (sys c)) \<and>
      (\<forall>t u ch. chan_at (pcs c t) = Some ch \<and> chan_at (pcs c u) = Some ch \<longrightarrow> t = u) \<and>
      (\<forall>ch. ch \<in> closed_chans (sys c) \<longrightarrow> ch < next_chan (sys c)) \<and>
      (\<forall>t ch. chan_at (pcs c t) = Some ch \<and> ch \<in> closed_chans (sys c) \<longrightarrow> passed c t \<noteq> None))"

definition inv_flight :: "('o, 'h) conf \<Rightarrow> bool" where
  "inv_flight c =
     (length (owners c) = length (inflight (sys c)) \<and>
      (\<forall>i ch. i < length (owners c) \<and> me_done (inflight (sys c) ! i) = Some ch
         \<longrightarrow> chan_at (pcs c (owners c ! i)) = Some ch) \<and>
      (\<forall>t. t \<in> set (owners c) \<longrightarrow> sent c t \<noteq> None \<and> passed c t = None) \<and>
      (\<forall>t. sent c t \<noteq> None \<and> passed c t = None \<longrightarrow> t \<in> set (owners c)) \<and>
      (\<forall>t. passed c t \<noteq> None \<longrightarrow> sent c t \<noteq> None) \<and>
      distinct (owners c))"

definition inv_pc :: "(nat \<Rightarrow> request) \<Rightarrow> ('o, 'h) conf \<Rightarrow> bool" where
  "inv_pc prog c =
     (\<forall>t. (pcs c t = Idle \<longrightarrow> called c t = None \<and> sent c t = None \<and> returned c t = None) \<and>
          (\<forall>e. pcs c t = Storing e \<or> pcs c t = Sending e
             \<longrightarrow> sent c t = None \<and> called c t \<noteq> None \<and> (\<exists>ch. e = item_of (prog t) ch)) \<and>
          (\<forall>ch. pcs c t = Closing ch \<or> pcs c t = Waiting ch \<longrightarrow> sent c t \<noteq> None) \<and>
          (pcs c t = Finishing \<longrightarrow> sent c t \<noteq> None \<and> prog t = CloseCall))"

definition inv_fifo :: "('o, 'h) conf \<Rightarrow> bool" where
  "inv_fifo c =
     ((\<forall>u v su sv pu. sent c u = Some su \<and> sent c v = Some sv \<and> sv < su \<and> passed c u = Some pu
         \<longrightarrow> (\<exists>pv. passed c v = Some pv \<and> pv < pu)) \<and>
      (\<forall>i v sv su. i < length (owners c) \<and> sent c v = Some sv \<and>
                   sent c (owners c ! i) = Some su \<and> sv < su
         \<longrightarrow> passed c v \<noteq> None \<or> (\<exists>j<i. owners c ! j = v)))"

definition inv_ret :: "(nat \<Rightarrow> request) \<Rightarrow> ('o, 'h) conf \<Rightarrow> bool" where
  "inv_ret prog c =
     ((\<forall>t entry. pcs c t = Done None \<and> prog t = LogCall entry True
         \<longrightarrow> (\<exists>p r. passed c t = Some p \<and> returned c t = Some r \<and> p < r)) \<and>
      (\<forall>t. pcs c t = Done None
         \<longrightarrow> (\<exists>s r. sent c t = Some s \<and> returned c t = Some r \<and> s \<le> r)) \<and>
      (\<forall>t s. sent c t = Some s \<longrightarrow> (\<exists>k. called c t = Some k \<and> k < s)))"

definition inv :: "(nat \<Rightarrow> request) \<Rightarrow> ('o, 'h) conf \<Rightarrow> bool" where
  "inv prog c =
     (inv_time c \<and> inv_chan c \<and> inv_flight c \<and> inv_pc prog c \<and> inv_fifo c \<and> inv_ret prog c)"

text \<open>
  The items in flight are those their owners built, in the same order, and only a
  \<^verbatim>\<open>Close\<close> call reaches the point where it closes the channel.
\<close>

definition inv_own :: "(nat \<Rightarrow> request) \<Rightarrow> ('o, 'h) conf \<Rightarrow> bool" where
  "inv_own prog c =
     (list_all2 (\<lambda>e u. \<exists>ch. e = item_of (prog u) ch) (inflight (sys c)) (owners c) \<and>
      (\<forall>t ch. pcs c t = Closing ch \<longrightarrow> prog t = CloseCall))"

section \<open>Example values\<close>

definition t0 :: time where
  "t0 = \<lparr>year = 2024, month = 1, day = 2, hour = 3, minute = 4, second = 5, nanosecond = 0\<rparr>"

definition entry0 :: "string \<Rightarrow> LogEntry" where
  "entry0 msg =
     \<lparr>Time = t0, Prefixes = [], Level = L_Info, Msg = msg, Fields = [(''a'', AnyInt 1)],
      Compiled = []\<rparr>"

text \<open>A writer that is an \<^verbatim>\<open>io.Closer\<close> and answers every call with \<open>err\<close>.\<close>

definition writer0 :: "error option \<Rightarrow> writer" where
  "writer0 err =
     \<lparr>written = [], write_err = err, is_closer = True, close_calls = 0, close_err = err\<rparr>"

definition x0 :: xworld where
  "x0 = \<lparr>bufs = (\<lambda>a. []), bpool = [], fresh_buf = 0, writers = (\<lambda>a. writer0 None)\<rparr>"

text \<open>
  Example outputs: text outputs that write the level and the message, the output at
  the address \<open>a\<close> on the writer \<open>a\<close>, closing their writers. In the first world the
  writers 0 and 2 answer \<^verbatim>\<open>ErrOutputClosed\<close>; in the second the writer 0 answers an
  I/O error.
\<close>

definition h_text :: "nat \<Rightarrow> outputWrapper" where
  "h_text a = NewTextOutput a F_Level True"

definition x_closed02 :: xworld where
  "x_closed02 = x0\<lparr>writers := (\<lambda>a. writer0 (if a = 1 then None else Some ErrOutputClosed))\<rparr>"

definition x_fail0 :: xworld where
  "x_fail0 = x0\<lparr>writers := (\<lambda>a. writer0 (if a = 0 then Some (ErrIO ''disk'') else None))\<rparr>"

definition ents0 :: "nat \<Rightarrow> LogEntry" where
  "ents0 a = entry0 ''hello''"

text \<open>Entries that can be told apart: \<open>first\<close> at the address 0, \<open>second\<close> elsewhere.\<close>

definition ents01 :: "nat \<Rightarrow> LogEntry" where
  "ents01 a = entry0 (if a = 0 then ''first'' else ''second'')"

text \<open>
  An example program: the goroutine 0 makes a non-blocking \<^verbatim>\<open>log\<close> call for the
  entry at the address 0, every other goroutine a blocking \<^verbatim>\<open>log\<close> call for the
  entry at the address 1.
\<close>

definition prog01 :: "nat \<Rightarrow> request" where
  "prog01 t = (if t = 0 then LogCall (Some 0) False else LogCall (Some 1) True)"

chapter \<open>Verification\<close>

section \<open>The compiled cache\<close>

lemma find_compiled_None_iff:
  "find_compiled flags t cs = None \<longleftrightarrow>
     (flags, t) \<notin> set (map (\<lambda>v. (Flag v, OutputType v)) cs)"
  by (induction cs) auto

text \<open>The renderers write the cache through \<^verbatim>\<open>AddCompiled\<close> only, so they keep its invariant.\<close>

lemma AddCompiled_x_cache_inv:
  "cache_inv entry \<Longrightarrow> AddCompiled_x flags t b entry x = (entry', x') \<Longrightarrow> cache_inv entry'"
  by (auto simp: AddCompiled_x_def AddCompiled_def cache_inv_def cache_keys_def
      find_compiled_None_iff split: option.splits if_splits prod.splits)

lemma TextLogFunc_cache_inv:
  assumes "cache_inv entry" and "TextLogFunc buf entry flags wr x = Inr (err, entry', x')"
  shows "cache_inv entry'"
proof -
  from assms(2) obtain bytes x2 where
    "AddCompiled_x flags T_Text buf entry (x\<lparr>bufs := (bufs x)(buf := bytes)\<rparr>) = (entry', x2)"
    by (auto simp: TextLogFunc_def bindF_def Let_def split: sum.splits prod.splits)
  from AddCompiled_x_cache_inv [OF assms(1) this] show ?thesis .
qed

lemma JSONLogFunc_cache_inv:
  assumes "cache_inv entry" and "JSONLogFunc marshal buf entry flags wr x = Inr (err, entry', x')"
  shows "cache_inv entry'"
proof -
  from assms(2) obtain x1 entry1 x2 x3 where
    a: "AddCompiled_x flags T_JSON (fresh_buf x) entry x1 = (entry1, x2)" and
    b: "AddCompiled_x F_NotSave T_JSON buf entry1 x2 = (entry', x3)"
    by (auto simp: JSONLogFunc_def Let_def split: prod.splits)
  from AddCompiled_x_cache_inv [OF AddCompiled_x_cache_inv [OF assms(1) a] b] show ?thesis .
qed

section \<open>The text renderer never leaves its digit array\<close>

lemma appendInt_loop_ok:
  "length arr = 20 \<Longrightarrow> 0 \<le> ind \<Longrightarrow> ind < 20 \<Longrightarrow> n < 10 ^ (nat ind + 1) \<Longrightarrow> wd \<le> ind + 1 \<Longrightarrow>
   \<exists>n' ind' arr'. appendInt_loop n wd ind arr = Inr (n', ind', arr') \<and>
      0 \<le> ind' \<and> ind' < 20 \<and> length arr' = 20"
proof (induction n wd ind arr rule: appendInt_loop.induct)
  case (1 n wd ind arr)
  show ?case
  proof (cases "n \<ge> 10 \<or> wd > 1")
    case False
    then show ?thesis using "1.prems" by (subst appendInt_loop.simps) simp
  next
    case True
    define r where "r = n sdiv 10"
    have ind1: "1 \<le> ind"
    proof (rule ccontr)
      assume "\<not> 1 \<le> ind"
      then have "ind = 0" using "1.prems" by simp
      then show False using True "1.prems" by auto
    qed
    have p: "(10::int) ^ (nat ind + 1) = 10 * 10 ^ (nat (ind - 1) + 1)"
      using ind1 by (simp add: nat_diff_distrib flip: power_Suc)
    have rb: "r < 10 ^ (nat (ind - 1) + 1)"
    proof (cases "n \<ge> 0")
      case True
      then have "r = n div 10" by (simp add: r_def signed_divide_int_def sgn_if)
      then show ?thesis using "1.prems"(4) p by simp
    next
      case False
      then have "r \<le> 0" by (simp add: r_def signed_divide_int_def sgn_if)
      moreover have "(0::int) < 10 ^ (nat (ind - 1) + 1)" by simp
      ultimately show ?thesis by linarith
    qed
    have "\<exists>n' ind' arr'.
            appendInt_loop r (wd - 1) (ind - 1) (arr[nat ind := char_of (48 + n - r * 10)])
              = Inr (n', ind', arr') \<and> 0 \<le> ind' \<and> ind' < 20 \<and> length arr' = 20"
      using "1.prems" ind1 rb True
      by (intro "1.IH"[OF True r_def]) auto
    then show ?thesis using True "1.prems"
      by (subst appendInt_loop.simps) (simp add: r_def Let_def)
  qed
qed

lemma appendInt_ok:
  "n < 10 ^ 20 \<Longrightarrow> wd \<le> 20 \<Longrightarrow> \<exists>s. appendInt buf n wd = Inr s"
  using appendInt_loop_ok[of "replicate 20 (CHR 0x00)" 19 n wd]
  by (auto simp: appendInt_def)

lemma go_int_appendInt: "go_int n \<Longrightarrow> wd \<le> 20 \<Longrightarrow> \<exists>s. appendInt buf n wd = Inr s"
  by (rule appendInt_ok) (simp_all add: go_int_def)

section \<open>What the worker and the waiting callers leave alone\<close>

lemma deliver_frame:
  "deliver ops a st = Inr st' \<Longrightarrow>
     m_b st' = m_b st \<and> m_mu st' = m_mu st \<and> m_ch_closed st' = m_ch_closed st \<and>
     next_chan st' = next_chan st \<and> closed_chans st' = closed_chans st"
  by (auto simp: deliver_def split: sum.splits prod.splits)

lemma signal_frame:
  "signal d st = Inr st' \<Longrightarrow>
     m_b st' = m_b st \<and> m_mu st' = m_mu st \<and> m_ch_closed st' = m_ch_closed st \<and>
     next_chan st' = next_chan st \<and> m_outputs st' = m_outputs st \<and> heap st' = heap st \<and>
     xw st' = xw st \<and> ents st' = ents st"
  by (auto simp: signal_def split: option.splits if_splits)

lemma worker_process_frame:
  assumes "worker_process ops e st = Inr st'"
  shows "m_b st' = m_b st \<and> m_mu st' = m_mu st \<and> m_ch_closed st' = m_ch_closed st \<and>
     next_chan st' = next_chan st"
proof -
  from assms obtain st1 st2 where
    d: "(case me_entry e of None \<Rightarrow> Inr st | Some a \<Rightarrow> deliver ops a st) = Inr st1" and
    s: "signal (me_done e) st1 = Inr st2" and
    r: "st' = st2\<lparr>w_item := None\<rparr>"
    by (auto simp: worker_process_def bindF_def split: sum.splits)
  from d have "m_b st1 = m_b st \<and> m_mu st1 = m_mu st \<and> m_ch_closed st1 = m_ch_closed st \<and>
     next_chan st1 = next_chan st"
    by (auto split: option.splits dest: deliver_frame)
  with signal_frame [OF s] r show ?thesis by simp
qed

lemma worker_step_frame:
  "worker_step ops st = Inr st' \<Longrightarrow>
     m_b st' = m_b st \<and> m_mu st' = m_mu st \<and> m_ch_closed st' = m_ch_closed st \<and>
     next_chan st' = next_chan st"
  by (auto simp: worker_step_def split: option.splits list.splits dest: worker_process_frame)

lemma await_done_frame:
  "await_done ops c st = Inr st' \<Longrightarrow>
     m_b st' = m_b st \<and> m_mu st' = m_mu st \<and> m_ch_closed st' = m_ch_closed st \<and>
     next_chan st' = next_chan st"
proof (induction ops c st rule: await_done.induct)
  case (1 ops c st)
  show ?case
  proof (cases "c \<in> closed_chans st")
    case True
    with "1.prems" show ?thesis by (simp add: await_done.simps)
  next
    case False
    with "1.prems" obtain st1 where en: "worker_enabled st" and
      w: "worker_step ops st = Inr st1" and a: "await_done ops c st1 = Inr st'"
      by (subst (asm) await_done.simps) (auto split: if_splits sum.splits)
    from "1.IH"[OF False en w a] worker_step_frame[OF w] show ?thesis by simp
  qed
qed

lemma await_room_frame:
  "await_room ops st = Inr st' \<Longrightarrow>
     m_b st' = m_b st \<and> m_mu st' = m_mu st \<and> m_ch_closed st' = m_ch_closed st \<and>
     next_chan st' = next_chan st"
proof (induction ops st rule: await_room.induct)
  case (1 ops st)
  show ?case
  proof (cases "length (m_ch st) < ch_cap")
    case True
    with "1.prems" show ?thesis by (simp add: await_room.simps)
  next
    case False
    with "1.prems" obtain st1 where en: "worker_enabled st" and
      w: "worker_step ops st = Inr st1" and a: "await_room ops st1 = Inr st'"
      by (subst (asm) await_room.simps) (auto split: if_splits sum.splits)
    from "1.IH"[OF False en w a] worker_step_frame[OF w] show ?thesis by simp
  qed
qed

lemma send_frame:
  "send ops e st = Inr st' \<Longrightarrow>
     m_b st' = m_b st \<and> m_mu st' = m_mu st \<and> m_ch_closed st' = m_ch_closed st \<and>
     next_chan st' = next_chan st"
  by (auto simp: send_def bindF_def split: if_splits sum.splits dest: await_room_frame)

lemma Close_post:
  assumes "Close ops st = Inr (None, st')"
  shows "m_b st' \<and> \<not> m_mu st' \<and> m_outputs st' = []"
proof -
  define e where "e = \<lparr>me_entry = None, me_done = Some (next_chan st)\<rparr>"
  define s0 where "s0 = st\<lparr>next_chan := Suc (next_chan st), m_b := True\<rparr>"
  have nb: "\<not> m_b st"
    using assms by (simp add: Close_def Let_def split: if_splits)
  have c1: "Close ops st = bindF (send ops e s0) (\<lambda>st1.
              if m_ch_closed st1 then Inl CloseOfClosedChannel
              else bindF (await_done ops (next_chan st) (st1\<lparr>m_ch_closed := True\<rparr>)) (\<lambda>st2.
                if m_mu st2 then Inl Deadlock
                else (case close_outputs ops (m_outputs st2) (heap st2, xw st2) of
                        (h', x') \<Rightarrow>
                          Inr (None, st2\<lparr>m_outputs := [], heap := h', xw := x'\<rparr>))))"
    using nb by (simp add: Close_def Let_def e_def s0_def)
  obtain st1 where s: "send ops e s0 = Inr st1"
    using assms unfolding c1 by (cases "send ops e s0") (simp_all add: bindF_def)
  have nc: "\<not> m_ch_closed st1"
    using assms unfolding c1 s by (simp add: bindF_def split: if_splits)
  obtain st2 where a: "await_done ops (next_chan st) (st1\<lparr>m_ch_closed := True\<rparr>) = Inr st2"
    using assms nc unfolding c1 s
    by (cases "await_done ops (next_chan st) (st1\<lparr>m_ch_closed := True\<rparr>)") (simp_all add: bindF_def)
  have mu: "\<not> m_mu st2"
    using assms nc unfolding c1 s by (simp add: bindF_def a split: if_splits)
  have r: "st' = st2\<lparr>m_outputs := [], heap := fst (close_outputs ops (m_outputs st2) (heap st2, xw st2)),
           xw := snd (close_outputs ops (m_outputs st2) (heap st2, xw st2))\<rparr>"
    using assms nc mu unfolding c1 s by (simp add: bindF_def a split: prod.splits)
  have "m_b s0" by (simp add: s0_def)
  with send_frame[OF s] await_done_frame[OF a] mu r show ?thesis by simp
qed

section \<open>Claims about the level labels, the cache and the renderers\<close>

text \<open>
  C10. \<^verbatim>\<open>LogLevel.String\<close> returns DEGUB for Debug (the ordinal 0), INFO, WARN, ERROR and
  FATAL for the ordinals 1 to 4, and UNKNOWN for every ordinal outside 0 to 4; the text
  renderer puts this label between brackets and the JSON renderer stores it under the
  key level.
\<close>

theorem LogLevel_String_labels:
  "LogLevel_String L_Debug = ''DEGUB'' \<and> LogLevel_String L_Info = ''INFO'' \<and>
   LogLevel_String L_Warn = ''WARN'' \<and> LogLevel_String L_Error = ''ERROR'' \<and>
   LogLevel_String L_Fatal = ''FATAL'' \<and>
   (\<forall>l. l < 0 \<or> 4 < l \<longrightarrow> LogLevel_String l = ''UNKNOWN'') \<and>
   (\<forall>buf l. text_level buf l F_Level = buf @ ''['' @ LogLevel_String l @ ''] '') \<and>
   (\<forall>entry. (''level'', AnyString (LogLevel_String (Level entry))) \<in> set (json_map entry F_Level))"
  by (simp add: LogLevel_String_def L_Debug_def L_Info_def L_Warn_def L_Error_def L_Fatal_def
      text_level_def json_map_def Let_def flag_defs)

theorem LogLevel_String_labels_witness:
  "LogLevel_String 7 = ''UNKNOWN'' \<and> text_level [] 0 F_Level = ''[DEGUB] ''"
proof -
  have "(7::int) < 0 \<or> 4 < (7::int)" by simp
  moreover have "text_level [] 0 F_Level = [] @ ''['' @ LogLevel_String L_Debug @ ''] ''"
    using LogLevel_String_labels by (simp add: L_Debug_def)
  ultimately show ?thesis using LogLevel_String_labels by simp
qed

text \<open>
  C7. On a record with an empty cache, \<^verbatim>\<open>AddCompiled(5, T_Text, buf)\<close> followed by
  \<^verbatim>\<open>GetCompiled(5, T_Text)\<close> returns \<^verbatim>\<open>(buf, true)\<close>, and \<^verbatim>\<open>GetCompiled(5, T_JSON)\<close>
  returns ok = false.
\<close>

theorem cache_round_trip:
  "GetCompiled 5 T_Text (fst (AddCompiled 5 T_Text buf (entry\<lparr>Compiled := []\<rparr>, p)))
     = (Some buf, True) \<and>
   snd (GetCompiled 5 T_JSON (fst (AddCompiled 5 T_Text buf (entry\<lparr>Compiled := []\<rparr>, p))))
     = False"
  by (simp add: GetCompiled_def AddCompiled_def F_NotSave_def T_Text_def T_JSON_def)

text \<open>
  C6. The cache of a record holds at most one entry for each pair of flags and output
  type: \<^verbatim>\<open>AddCompiled\<close> keeps this invariant, and a call for a pair that is already
  cached leaves the record as it is and puts the new buffer into the pool.
  \<^verbatim>\<open>GetCompiled\<close> only reads the record.
\<close>

theorem AddCompiled_cache_inv:
  "cache_inv entry \<Longrightarrow>
     cache_inv (fst (AddCompiled flags t b (entry, p))) \<and>
     ((flags, t) \<in> set (cache_keys entry) \<longrightarrow>
        AddCompiled flags t b (entry, p) = (entry, putBuf b p))"
  by (auto simp: AddCompiled_def cache_inv_def cache_keys_def find_compiled_None_iff
      split: option.splits)

theorem AddCompiled_cache_inv_witness:
  "cache_inv (fst (AddCompiled 5 T_Text 0 (entry0 ''hello'', []))) \<and>
   cache_inv (fst (AddCompiled 5 T_Text 1 (AddCompiled 5 T_Text 0 (entry0 ''hello'', [])))) \<and>
   AddCompiled 5 T_Text 1 (AddCompiled 5 T_Text 0 (entry0 ''hello'', []))
     = (fst (AddCompiled 5 T_Text 0 (entry0 ''hello'', [])), [1])"
proof -
  have i0: "cache_inv (entry0 ''hello'')"
    by (simp add: cache_inv_def cache_keys_def entry0_def)
  have a: "AddCompiled 5 T_Text 0 (entry0 ''hello'', [])
             = (fst (AddCompiled 5 T_Text 0 (entry0 ''hello'', [])), [])"
    by (simp add: AddCompiled_def F_NotSave_def entry0_def)
  have k: "(5, T_Text) \<in> set (cache_keys (fst (AddCompiled 5 T_Text 0 (entry0 ''hello'', []))))"
    by (simp add: AddCompiled_def F_NotSave_def entry0_def cache_keys_def)
  have i1: "cache_inv (fst (AddCompiled 5 T_Text 0 (entry0 ''hello'', [])))"
    using AddCompiled_cache_inv [OF i0] by blast
  from AddCompiled_cache_inv [OF i1, of 5 T_Text 1 "[]"] k
  have "cache_inv (fst (AddCompiled 5 T_Text 1 (fst (AddCompiled 5 T_Text 0 (entry0 ''hello'', [])), []))) \<and>
        AddCompiled 5 T_Text 1 (fst (AddCompiled 5 T_Text 0 (entry0 ''hello'', [])), [])
          = (fst (AddCompiled 5 T_Text 0 (entry0 ''hello'', [])), putBuf 1 [])"
    by blast
  with i1 a show ?thesis by (simp add: putBuf_def)
qed

lemma sdiv_1000_bound: "go_int n \<Longrightarrow> n sdiv 1000 < 10 ^ 20"
  by (simp add: go_int_def signed_divide_int_def sgn_if) linarith

lemma text_time_ok:
  assumes "time_ints t"
  shows "\<exists>s. text_time buf t flags = Inr s"
proof (cases "flags AND (F_Time OR F_Micro) \<noteq> 0")
  case False
  then show ?thesis by (simp add: text_time_def)
next
  case True
  from assms obtain b1 where b1: "appendInt buf (day t) 2 = Inr b1"
    using go_int_appendInt[of "day t" 2 buf] by (auto simp: time_ints_def)
  from assms obtain b2 where b2: "appendInt (b1 @ ''/'') (month t) 2 = Inr b2"
    using go_int_appendInt[of "month t" 2] by (auto simp: time_ints_def)
  from assms obtain b3 where b3: "appendInt (b2 @ ''/'') (year t) 4 = Inr b3"
    using go_int_appendInt[of "year t" 4] by (auto simp: time_ints_def)
  from assms obtain b4 where b4: "appendInt (b3 @ '' '') (hour t) 2 = Inr b4"
    using go_int_appendInt[of "hour t" 2] by (auto simp: time_ints_def)
  from assms obtain b5 where b5: "appendInt (b4 @ '':'') (minute t) 2 = Inr b5"
    using go_int_appendInt[of "minute t" 2] by (auto simp: time_ints_def)
  from assms obtain b6 where b6: "appendInt (b5 @ '':'') (second t) 2 = Inr b6"
    using go_int_appendInt[of "second t" 2] by (auto simp: time_ints_def)
  from assms have "go_int (nanosecond t)" by (simp add: time_ints_def)
  then obtain b7 where b7: "appendInt (b6 @ ''.'') (nanosecond t sdiv 1000) 6 = Inr b7"
    using appendInt_ok[of "nanosecond t sdiv 1000" 6] sdiv_1000_bound[of "nanosecond t"] by auto
  show ?thesis
    using True b1 b2 b3 b4 b5 b6 b7 by (simp add: text_time_def bindF_def)
qed

lemma text_msg_fails_iff:
  "text_msg buf msg flags = Inl f \<longleftrightarrow>
     f = IndexOutOfRange \<and> flags AND F_NewLine \<noteq> 0 \<and> msg = []"
  by (auto simp: text_msg_def Let_def)

text \<open>
  C9. With \<^verbatim>\<open>F_NewLine\<close> set, \<^verbatim>\<open>TextLogFunc\<close> reads the last byte of the message, which
  is out of range for the empty message; for a message that is not empty the read is in
  range. On a record whose time components are 64-bit integers this is the only way
  \<^verbatim>\<open>TextLogFunc\<close> can panic: it fails, with an index out of range, exactly when
  \<^verbatim>\<open>F_NewLine\<close> is set and the message is empty.
\<close>

theorem TextLogFunc_fails_iff:
  assumes "time_ints (Time entry)"
  shows "TextLogFunc buf entry flags wr x = Inl f \<longleftrightarrow>
           f = IndexOutOfRange \<and> flags AND F_NewLine \<noteq> 0 \<and> Msg entry = []"
proof -
  from text_time_ok[OF assms] obtain s where s: "text_time (bufs x buf) (Time entry) flags = Inr s"
    by blast
  have "text_bytes (bufs x buf) entry flags = Inl f \<longleftrightarrow>
          f = IndexOutOfRange \<and> flags AND F_NewLine \<noteq> 0 \<and> Msg entry = []"
    using s by (simp add: text_bytes_def bindF_def text_msg_fails_iff)
  then show ?thesis
    by (auto simp: TextLogFunc_def bindF_def Let_def split: sum.splits prod.splits)
qed

theorem TextLogFunc_fails_iff_witness:
  "time_ints (Time (entry0 [])) \<and> TextLogFunc 0 (entry0 []) F_NewLine 0 x0 = Inl IndexOutOfRange \<and>
   TextLogFunc 0 (entry0 ''hello'') F_NewLine 0 x0 \<noteq> Inl IndexOutOfRange"
proof -
  have t: "time_ints (Time (entry0 []))" "time_ints (Time (entry0 ''hello''))"
    by (simp_all add: time_ints_def go_int_def entry0_def t0_def)
  have "F_NewLine AND F_NewLine \<noteq> 0 \<and> Msg (entry0 []) = [] \<and> Msg (entry0 ''hello'') \<noteq> []"
    by (simp add: F_NewLine_def entry0_def)
  with TextLogFunc_fails_iff[OF t(1), of 0 F_NewLine 0 x0 IndexOutOfRange]
       TextLogFunc_fails_iff[OF t(2), of 0 F_NewLine 0 x0 IndexOutOfRange] t
  show ?thesis by simp
qed

text \<open>
  C5, as the code has it. When the record has fields and at least one of the three
  field bits is set, exactly one embedding is applied, and the precedence is: nested
  object (\<^verbatim>\<open>F_Fields_A\<close>) over top-level keys (\<^verbatim>\<open>F_Fields\<close>) over nested array
  (\<^verbatim>\<open>F_Fields_B\<close>). The map is the one of the record without fields, with the embedding
  put before the message.
\<close>

theorem json_fields_precedence:
  assumes "Fields entry \<noteq> []" and "flags AND (F_Fields OR F_Fields_A OR F_Fields_B) \<noteq> 0"
  shows "json_map entry flags =
           butlast (json_map (entry\<lparr>Fields := []\<rparr>) flags) @
           (if flags AND F_Fields_A \<noteq> 0 then nested_object (Fields entry)
            else if flags AND F_Fields \<noteq> 0 then top_level_keys (Fields entry)
            else nested_array (Fields entry)) @
           [(''msg'', AnyString (Msg entry))]"
proof -
  have "flags AND F_Fields_A = 0 \<Longrightarrow> flags AND F_Fields = 0 \<Longrightarrow> flags AND F_Fields_B \<noteq> 0"
    using assms(2) by (simp add: bit.conj_disj_distrib)
  then show ?thesis using assms
    by (simp add: json_map_def Let_def nested_object_def top_level_keys_def nested_array_def)
qed

theorem json_fields_precedence_witness:
  "Fields (entry0 ''hello'') \<noteq> [] \<and>
   (F_Fields OR F_Fields_A) AND (F_Fields OR F_Fields_A OR F_Fields_B) \<noteq> 0 \<and>
   json_map (entry0 ''hello'') (F_Fields OR F_Fields_A)
     = [(''fields'', AnyM [(''a'', AnyInt 1)]), (''msg'', AnyString ''hello'')]"
proof -
  have a: "Fields (entry0 ''hello'') \<noteq> []" by (simp add: entry0_def)
  have b: "(F_Fields OR F_Fields_A) AND (F_Fields OR F_Fields_A OR F_Fields_B) \<noteq> 0"
    by (simp add: flag_defs)
  have c: "(F_Fields OR F_Fields_A) AND F_Fields_A \<noteq> 0" by (simp add: flag_defs)
  have d: "json_map (entry0 ''hello''\<lparr>Fields := []\<rparr>) (F_Fields OR F_Fields_A)
             = [(''msg'', AnyString ''hello'')]"
    by (simp add: json_map_def entry0_def flag_defs)
  show ?thesis using json_fields_precedence[OF a b] a b c d
    by (simp add: nested_object_def entry0_def)
qed

text \<open>
  C5, as the specification has it, fails: with the bits for top-level keys and for the
  nested object both set, the fields are embedded as a nested object, not as top-level
  keys.
\<close>

theorem json_top_level_first_counterexample:
  "json_map (entry0 ''hello'') (F_Fields OR F_Fields_A)
     = nested_object [(''a'', AnyInt 1)] @ [(''msg'', AnyString ''hello'')] \<and>
   json_map (entry0 ''hello'') (F_Fields OR F_Fields_A)
     \<noteq> top_level_keys [(''a'', AnyInt 1)] @ [(''msg'', AnyString ''hello'')]"
  by (simp add: json_map_def entry0_def flag_defs nested_object_def top_level_keys_def)

section \<open>Closing a manager whose queue is empty\<close>

lemma await_room_free: "length (m_ch st) < ch_cap \<Longrightarrow> await_room ops st = Inr st"
  by (simp add: await_room.simps)

lemma await_done_marker:
  assumes "w_item st = None" "m_ch st = [\<lparr>me_entry = None, me_done = Some c\<rparr>]"
    "c \<notin> closed_chans st"
  shows "await_done ops c st =
           Inr (st\<lparr>m_ch := [], closed_chans := insert c (closed_chans st), w_item := None\<rparr>)"
proof -
  define e where "e = \<lparr>me_entry = None, me_done = Some c\<rparr>"
  define s1 where "s1 = st\<lparr>m_ch := [], w_item := Some e\<rparr>"
  define s2 where "s2 = st\<lparr>m_ch := [], closed_chans := insert c (closed_chans st), w_item := None\<rparr>"
  have 1: "worker_enabled st" "worker_step ops st = Inr s1"
    using assms by (simp_all add: worker_enabled_def worker_step_def s1_def e_def)
  have 2: "worker_enabled s1" "worker_step ops s1 = Inr s2" "c \<notin> closed_chans s1"
    using assms
    by (simp_all add: worker_enabled_def worker_step_def worker_process_def signal_def bindF_def
        s1_def s2_def e_def)
  have 3: "c \<in> closed_chans s2" by (simp add: s2_def)
  have "await_done ops c s2 = Inr s2"
    using 3 by (simp add: await_done.simps)
  then have "await_done ops c s1 = Inr s2"
    using 2 by (subst await_done.simps) simp
  then have "await_done ops c st = Inr s2"
    using 1 assms(3) by (subst await_done.simps) simp
  then show ?thesis by (simp add: s2_def)
qed

lemma close_outputs_traced:
  "close_outputs (traced ops) outs ((h, tr), x) =
     ((fst (close_outputs ops outs (h, x)),
       tr @ map2 Call_LogClose outs (close_results ops outs (h, x))),
      snd (close_outputs ops outs (h, x)))"
proof (induction outs arbitrary: h tr x)
  case Nil
  then show ?case by simp
next
  case (Cons v vs)
  obtain err h1 x1 where l: "LogClose ops v (h, x) = (err, h1, x1)"
    by (cases "LogClose ops v (h, x)") auto
  then have "LogClose (traced ops) v ((h, tr), x) = (err, (h1, tr @ [Call_LogClose v err]), x1)"
    by (simp add: traced_def)
  with l Cons.IH[of h1 "tr @ [Call_LogClose v err]" x1] show ?case by simp
qed

lemma Close_quiescent:
  assumes "\<not> m_b st" "\<not> m_mu st" "\<not> m_ch_closed st" "m_ch st = []" "w_item st = None"
    "next_chan st \<notin> closed_chans st"
  shows "Close ops st =
     Inr (None, st\<lparr>next_chan := Suc (next_chan st), m_b := True, m_ch_closed := True,
                  closed_chans := insert (next_chan st) (closed_chans st),
                  m_outputs := [],
                  heap := fst (close_outputs ops (m_outputs st) (heap st, xw st)),
                  xw := snd (close_outputs ops (m_outputs st) (heap st, xw st))\<rparr>)"
proof -
  let ?c = "next_chan st"
  define e where "e = \<lparr>me_entry = None, me_done = Some ?c\<rparr>"
  define s0 where "s0 = st\<lparr>next_chan := Suc ?c, m_b := True\<rparr>"
  define s1 where "s1 = s0\<lparr>m_ch := [e]\<rparr>"
  define s2 where "s2 = s1\<lparr>m_ch_closed := True\<rparr>"
  define s3 where "s3 = s2\<lparr>m_ch := [], closed_chans := insert ?c (closed_chans s2), w_item := None\<rparr>"
  have snd: "send ops e s0 = Inr s1"
    using assms by (simp add: send_def bindF_def await_room_free s0_def s1_def ch_cap_def)
  have aw: "await_done ops ?c s2 = Inr s3"
    unfolding s3_def using assms
    by (intro await_done_marker) (simp_all add: s2_def s1_def s0_def e_def)
  have nc: "\<not> m_ch_closed s1" "\<not> m_mu s3"
    using assms by (simp_all add: s3_def s2_def s1_def s0_def)
  have "Close ops st = bindF (send ops e s0) (\<lambda>st1.
              if m_ch_closed st1 then Inl CloseOfClosedChannel
              else bindF (await_done ops ?c (st1\<lparr>m_ch_closed := True\<rparr>)) (\<lambda>st2.
                if m_mu st2 then Inl Deadlock
                else (case close_outputs ops (m_outputs st2) (heap st2, xw st2) of
                        (h', x') \<Rightarrow>
                          Inr (None, st2\<lparr>m_outputs := [], heap := h', xw := x'\<rparr>))))"
    using assms(1) by (simp add: Close_def Let_def e_def s0_def)
  also have "\<dots> = bindF (await_done ops ?c s2) (\<lambda>st2.
                if m_mu st2 then Inl Deadlock
                else (case close_outputs ops (m_outputs st2) (heap st2, xw st2) of
                        (h', x') \<Rightarrow>
                          Inr (None, st2\<lparr>m_outputs := [], heap := h', xw := x'\<rparr>)))"
    unfolding snd s2_def using nc(1) by (simp add: bindF_def)
  also have "\<dots> = (case close_outputs ops (m_outputs s3) (heap s3, xw s3) of
                        (h', x') \<Rightarrow>
                          Inr (None, s3\<lparr>m_outputs := [], heap := h', xw := x'\<rparr>))"
    unfolding aw using nc(2) by (simp add: bindF_def)
  finally show ?thesis
    using assms by (simp add: s3_def s2_def s1_def s0_def split: prod.splits)
qed

lemma newManager_quiescent:
  "\<not> m_b (newManager h x es)" "\<not> m_mu (newManager h x es)" "\<not> m_ch_closed (newManager h x es)"
  "m_ch (newManager h x es) = []" "w_item (newManager h x es) = None"
  "next_chan (newManager h x es) \<notin> closed_chans (newManager h x es)"
  by (simp_all add: newManager_def)


section \<open>What a delivery pass calls\<close>

text \<open>
  A delivery pass calls \<^verbatim>\<open>Log\<close> once on every registered output, in the order of the
  registry, and calls no other method of an output.
\<close>

lemma log_outputs_traced:
  "log_outputs (traced ops) outs i entry ((h, tr), x) = Inr (rm, entry', (h', tr'), x') \<Longrightarrow>
     \<exists>cs. tr' = tr @ cs \<and> map logged cs = map Some outs"
proof (induction outs arbitrary: i entry h tr x rm)
  case Nil
  then show ?case by simp
next
  case (Cons out outs)
  from Cons.prems obtain err e1 h1 x1 rm1 where
    l: "Log ops out entry (h, x) = Inr (err, e1, h1, x1)" and
    r: "log_outputs (traced ops) outs (Suc i) e1 ((h1, tr @ [Call_Log out entry err]), x1)
          = Inr (rm1, entry', (h', tr'), x')"
    by (auto simp: traced_def split: sum.splits prod.splits)
  from Cons.IH [OF r] obtain cs where "tr' = (tr @ [Call_Log out entry err]) @ cs"
    "map logged cs = map Some outs"
    by blast
  then have "tr' = tr @ (Call_Log out entry err # cs) \<and>
             map logged (Call_Log out entry err # cs) = map Some (out # outs)"
    by simp
  then show ?case by blast
qed

lemma deliver_calls_Log_on_every_output:
  assumes "deliver (traced ops) a st = Inr st'"
  shows "\<exists>cs. snd (heap st') = snd (heap st) @ cs \<and> map logged cs = map Some (m_outputs st)"
proof -
  obtain h tr where hs: "heap st = (h, tr)" by (cases "heap st") auto
  from assms hs obtain rm e1 h1 tr1 x1 where
    l: "log_outputs (traced ops) (m_outputs st) 0 (ents st a) ((h, tr), xw st)
          = Inr (rm, e1, (h1, tr1), x1)" and
    s: "heap st' = (h1, tr1)"
    by (auto simp: deliver_def split: sum.splits prod.splits)
  from log_outputs_traced [OF l] hs s show ?thesis by simp
qed

section \<open>Claims about the manager, for one caller\<close>

text \<open>
  C4, as the code has it. After \<^verbatim>\<open>Close\<close> has returned nil, \<^verbatim>\<open>log\<close> returns
  \<^verbatim>\<open>ErrManagerClosed\<close> at once and changes nothing that an output can see (only the
  channel it allocated when blocking is lost), and a second \<^verbatim>\<open>Close\<close> returns
  \<^verbatim>\<open>ErrManagerClosed\<close> too. \<^verbatim>\<open>addOutput\<close> does nothing and has no result, and
  \<^verbatim>\<open>removeOutput\<close> returns false: neither reports an error.
\<close>

theorem after_Close:
  assumes "Close ops st = Inr (None, st1)"
  shows "log ops entry block st1 =
           Inr (Some ErrManagerClosed, if block then st1\<lparr>next_chan := Suc (next_chan st1)\<rparr> else st1) \<and>
         Close ops st1 = Inr (Some ErrManagerClosed, st1\<lparr>next_chan := Suc (next_chan st1)\<rparr>) \<and>
         addOutput ops out st1 = Inr st1 \<and>
         removeOutput out st1 = Inr (False, st1)"
proof -
  from Close_post[OF assms] have p: "m_b st1" "\<not> m_mu st1" "m_outputs st1 = []" by simp_all
  have "log ops entry block st1 =
           Inr (Some ErrManagerClosed, if block then st1\<lparr>next_chan := Suc (next_chan st1)\<rparr> else st1)"
    using p(1) by (simp add: log_def Let_def)
  moreover have "Close ops st1 = Inr (Some ErrManagerClosed, st1\<lparr>next_chan := Suc (next_chan st1)\<rparr>)"
    using p(1) by (simp add: Close_def Let_def)
  moreover have "addOutput ops out st1 = Inr st1"
    using p(1) by (simp add: addOutput_def)
  moreover have "removeOutput out st1 = Inr (False, st1)"
    using p(2,3) by (simp add: removeOutput_def)
  ultimately show ?thesis by blast
qed

theorem after_Close_witness:
  "\<exists>s1. Close wrapper_ops (newManager h_text x0 ents0) = Inr (None, s1) \<and>
     log wrapper_ops (Some 0) True s1 = Inr (Some ErrManagerClosed, s1\<lparr>next_chan := Suc (next_chan s1)\<rparr>) \<and>
     log wrapper_ops (Some 0) False s1 = Inr (Some ErrManagerClosed, s1) \<and>
     Close wrapper_ops s1 = Inr (Some ErrManagerClosed, s1\<lparr>next_chan := Suc (next_chan s1)\<rparr>)"
proof -
  obtain s1 where c: "Close wrapper_ops (newManager h_text x0 ents0) = Inr (None, s1)"
    using Close_quiescent[OF newManager_quiescent, of wrapper_ops h_text x0 ents0] by blast
  from after_Close[OF c, of "Some 0" True 0] after_Close[OF c, of "Some 0" False 0] c
  show ?thesis by auto
qed

text \<open>
  C4, as the specification has it, fails for \<^verbatim>\<open>addOutput\<close> and \<^verbatim>\<open>removeOutput\<close>: on
  a closed manager the first returns nothing and the second returns false, which is
  also its answer on an open manager that does not hold the output.
\<close>

theorem add_remove_after_Close_counterexample:
  "\<exists>s1. Close wrapper_ops (newManager h_text x0 ents0) = Inr (None, s1) \<and>
     addOutput wrapper_ops 0 s1 = Inr s1 \<and>
     removeOutput (0::nat) s1 = Inr (False, s1) \<and>
     removeOutput (0::nat) (newManager h_text x0 ents0) = Inr (False, newManager h_text x0 ents0)"
proof -
  obtain s1 where c: "Close wrapper_ops (newManager h_text x0 ents0) = Inr (None, s1)"
    using Close_quiescent[OF newManager_quiescent, of wrapper_ops h_text x0 ents0] by blast
  from Close_post[OF c] have p: "m_b s1" "\<not> m_mu s1" "m_outputs s1 = []" by simp_all
  have "addOutput wrapper_ops 0 s1 = Inr s1" using p(1) by (simp add: addOutput_def)
  moreover have "removeOutput (0::nat) s1 = Inr (False, s1)" using p(2,3) by (simp add: removeOutput_def)
  moreover have "removeOutput (0::nat) (newManager h_text x0 ents0) = Inr (False, newManager h_text x0 ents0)"
    by (simp add: removeOutput_def newManager_def)
  ultimately show ?thesis using c by blast
qed

lemma addOutput_open:
  "\<not> m_b st \<Longrightarrow> \<not> m_mu st \<Longrightarrow>
   addOutput ops out st =
     Inr (st\<lparr>m_outputs := m_outputs st @ [out], heap := fst (OnAdd ops out (heap st, xw st)),
            xw := snd (OnAdd ops out (heap st, xw st))\<rparr>)"
  by (simp add: addOutput_def split: prod.splits)

lemma wrapper_OnAdd_traced:
  "OnAdd (traced wrapper_ops) a ((h, tr), x) = ((h(a := outputWrapper_OnAdd (h a)), tr @ [Call_OnAdd a]), x)"
  by (simp add: traced_def wrapper_ops_def)

lemma wrapper_LogClose:
  "LogClose wrapper_ops a (h, x) =
     (fst (outputWrapper_LogClose (h a) x), h(a := fst (snd (outputWrapper_LogClose (h a) x))),
      snd (snd (outputWrapper_LogClose (h a) x)))"
  by (simp add: wrapper_ops_def split: prod.splits)


text \<open>
  C2 fails on the code. Three outputs are registered and one record is logged; the
  outputs 0 and 2 answer \<^verbatim>\<open>ErrOutputClosed\<close>, the output 1 answers nil. After the
  pass the registry holds the output 2, which reported that it is closed, and has lost
  the output 1, which did not: the second loop of the worker moves the last output to
  the index \<open>i - r\<close> as if the earlier removals had shifted the slice.
\<close>

theorem delivery_pass_keeps_closed_output:
  "(case bindF (addOutput (traced wrapper_ops) 0 (newManager (h_text, []) x_closed02 ents0)) (\<lambda>s.
           bindF (addOutput (traced wrapper_ops) 1 s) (\<lambda>s.
           bindF (addOutput (traced wrapper_ops) 2 s) (\<lambda>s.
           log (traced wrapper_ops) (Some 0) True s))) of
      Inl f \<Rightarrow> False
    | Inr (err, st) \<Rightarrow>
        err = None \<and> m_outputs st = [2] \<and>
        [(out, r). Call_Log out e r \<leftarrow> snd (heap st)]
          = [(0, Some ErrOutputClosed), (1, None), (2, Some ErrOutputClosed)])"
  by code_simp

text \<open>
  C3 fails on the code. Two outputs are registered and the manager is closed; the
  \<^verbatim>\<open>LogClose\<close> of the output 0 returns an I/O error. Both \<^verbatim>\<open>LogClose\<close> are called, and
  \<^verbatim>\<open>Close\<close> returns nil: the error is dropped.
\<close>

theorem Close_drops_close_errors:
  "(case bindF (addOutput (traced wrapper_ops) 0 (newManager (h_text, []) x_fail0 ents0)) (\<lambda>s.
           bindF (addOutput (traced wrapper_ops) 1 s) (\<lambda>s.
           Close (traced wrapper_ops) s)) of
      Inl f \<Rightarrow> False
    | Inr (err, st) \<Rightarrow>
        err = None \<and> m_outputs st = [] \<and>
        snd (heap st) = [Call_OnAdd 0, Call_OnAdd 1,
           Call_LogClose 0 (Some (ErrIO ''disk'')), Call_LogClose 1 None])"
  by code_simp

text \<open>
  C8. An output whose \<^verbatim>\<open>OnAdd\<close> has run twice releases its resource on the second
  \<^verbatim>\<open>LogClose\<close> only: the first call lowers the count, returns nil and leaves the
  world of writers as it is; the second calls \<^verbatim>\<open>CloseFunc\<close>. One \<^verbatim>\<open>Close\<close> of a
  manager on which the output was registered twice calls \<^verbatim>\<open>LogClose\<close> once for each
  registration, and so releases the resource.
\<close>

theorem close_on_last_reference:
  assumes "o_add (h a) = 0" and "o_CloseFunc (h a) = Some f"
  shows "outputWrapper_LogClose (outputWrapper_OnAdd (outputWrapper_OnAdd (h a))) x
           = (None, outputWrapper_OnAdd (h a), x) \<and>
         outputWrapper_LogClose (outputWrapper_OnAdd (h a)) x
           = (fst (f (o_w (h a)) (o_close (h a)) x), outputWrapper_OnAdd (h a),
              snd (f (o_w (h a)) (o_close (h a)) x)) \<and>
         (\<exists>s1 s2 s3.
            addOutput (traced wrapper_ops) a (newManager (h, []) x es) = Inr s1 \<and>
            addOutput (traced wrapper_ops) a s1 = Inr s2 \<and>
            m_outputs s2 = [a, a] \<and>
            Close (traced wrapper_ops) s2 = Inr (None, s3) \<and>
            snd (heap s3) =
              [Call_OnAdd a, Call_OnAdd a, Call_LogClose a None,
               Call_LogClose a (fst (f (o_w (h a)) (o_close (h a)) x))] \<and>
            xw s3 = snd (f (o_w (h a)) (o_close (h a)) x) \<and>
            fst (heap s3) a = outputWrapper_OnAdd (h a))"
proof -
  define ow2 where "ow2 = outputWrapper_OnAdd (outputWrapper_OnAdd (h a))"
  define r where "r = f (o_w (h a)) (o_close (h a)) x"
  have ow1: "outputWrapper_OnAdd (h a) = ow2\<lparr>o_add := 1\<rparr>"
    using assms(1) by (simp add: ow2_def outputWrapper_OnAdd_def)
  have l1: "outputWrapper_LogClose ow2 x = (None, ow2\<lparr>o_add := 1\<rparr>, x)"
    using assms(1) by (simp add: outputWrapper_LogClose_def outputWrapper_OnAdd_def ow2_def)
  have l2: "outputWrapper_LogClose (ow2\<lparr>o_add := 1\<rparr>) x = (fst r, ow2\<lparr>o_add := 1\<rparr>, snd r)"
    using assms(2)
    by (simp add: outputWrapper_LogClose_def outputWrapper_OnAdd_def ow2_def r_def split: prod.splits)
  define s0 :: "(nat, (nat \<Rightarrow> outputWrapper) \<times> nat call list) system"
    where "s0 = newManager (h, []) x es"
  define h1 where "h1 = h(a := outputWrapper_OnAdd (h a))"
  define h2 where "h2 = h1(a := ow2)"
  define s1 where "s1 = s0\<lparr>m_outputs := [a], heap := (h1, [Call_OnAdd a]), xw := x\<rparr>"
  define s2 where "s2 = s1\<lparr>m_outputs := [a, a], heap := (h2, [Call_OnAdd a, Call_OnAdd a]), xw := x\<rparr>"
  have a1: "addOutput (traced wrapper_ops) a s0 = Inr s1"
    by (simp add: addOutput_open s0_def newManager_def wrapper_OnAdd_traced s1_def h1_def)
  have a2: "addOutput (traced wrapper_ops) a s1 = Inr s2"
    by (simp add: addOutput_open s0_def newManager_def wrapper_OnAdd_traced s1_def s2_def
        h1_def h2_def ow2_def)
  have q: "\<not> m_b s2" "\<not> m_mu s2" "\<not> m_ch_closed s2" "m_ch s2 = []" "w_item s2 = None"
    "next_chan s2 \<notin> closed_chans s2"
    by (simp_all add: s2_def s1_def s0_def newManager_def)
  have c1: "LogClose wrapper_ops a (h2, x) = (None, h2(a := ow2\<lparr>o_add := 1\<rparr>), x)"
    using l1 by (simp add: wrapper_LogClose h2_def)
  have c2: "LogClose wrapper_ops a (h2(a := ow2\<lparr>o_add := 1\<rparr>), x)
              = (fst r, h2(a := ow2\<lparr>o_add := 1\<rparr>), snd r)"
    using l2 by (simp add: wrapper_LogClose)
  have co: "close_outputs wrapper_ops [a, a] (h2, x) = (h2(a := ow2\<lparr>o_add := 1\<rparr>), snd r)"
    by (simp add: c1 c2)
  have cr: "close_results wrapper_ops [a, a] (h2, x) = [None, fst r]"
    by (simp add: c1 c2)
  have hs: "heap s2 = (h2, [Call_OnAdd a, Call_OnAdd a])" "xw s2 = x" "m_outputs s2 = [a, a]"
    by (simp_all add: s2_def)
  obtain s3 where c: "Close (traced wrapper_ops) s2 = Inr (None, s3)" and
    s3: "s3 = s2\<lparr>next_chan := Suc (next_chan s2), m_b := True, m_ch_closed := True,
                  closed_chans := insert (next_chan s2) (closed_chans s2),
                  m_outputs := [],
                  heap := fst (close_outputs (traced wrapper_ops) (m_outputs s2) (heap s2, xw s2)),
                  xw := snd (close_outputs (traced wrapper_ops) (m_outputs s2) (heap s2, xw s2))\<rparr>"
    using Close_quiescent[OF q, of "traced wrapper_ops"] by blast
  have t: "snd (heap s3) = [Call_OnAdd a, Call_OnAdd a, Call_LogClose a None, Call_LogClose a (fst r)]"
    "xw s3 = snd r" "fst (heap s3) a = ow2\<lparr>o_add := 1\<rparr>"
    unfolding s3 hs close_outputs_traced co cr by simp_all
  have e1: "ow2\<lparr>o_add := 1\<rparr> = outputWrapper_OnAdd (h a)"
    using ow1 by simp
  note l1' = l1 [unfolded e1, unfolded ow2_def]
    and l2' = l2 [unfolded e1, unfolded r_def]
    and t' = t [unfolded e1, unfolded r_def]
    and a1' = a1 [unfolded s0_def]
  from a1' a2 hs(3) c t' have "\<exists>s1 s2 s3.
            addOutput (traced wrapper_ops) a (newManager (h, []) x es) = Inr s1 \<and>
            addOutput (traced wrapper_ops) a s1 = Inr s2 \<and>
            m_outputs s2 = [a, a] \<and>
            Close (traced wrapper_ops) s2 = Inr (None, s3) \<and>
            snd (heap s3) =
              [Call_OnAdd a, Call_OnAdd a, Call_LogClose a None,
               Call_LogClose a (fst (f (o_w (h a)) (o_close (h a)) x))] \<and>
            xw s3 = snd (f (o_w (h a)) (o_close (h a)) x) \<and>
            fst (heap s3) a = outputWrapper_OnAdd (h a)"
    by blast
  with l1' l2' show ?thesis by blast
qed

theorem close_on_last_reference_witness:
  "outputWrapper_LogClose (outputWrapper_OnAdd (outputWrapper_OnAdd (h_text 0))) x0
     = (None, outputWrapper_OnAdd (h_text 0), x0) \<and>
   outputWrapper_LogClose (outputWrapper_OnAdd (h_text 0)) x0
     = (None, outputWrapper_OnAdd (h_text 0),
        x0\<lparr>writers := (writers x0)(0 := (writer0 None)\<lparr>close_calls := 1\<rparr>)\<rparr>) \<and>
   (\<exists>s1 s2 s3.
      addOutput (traced wrapper_ops) 0 (newManager (h_text, []) x0 ents0) = Inr s1 \<and>
      addOutput (traced wrapper_ops) 0 s1 = Inr s2 \<and>
      m_outputs s2 = [0, 0] \<and>
      Close (traced wrapper_ops) s2 = Inr (None, s3) \<and>
      snd (heap s3) = [Call_OnAdd 0, Call_OnAdd 0, Call_LogClose 0 None, Call_LogClose 0 None] \<and>
      close_calls (writers (xw s3) 0) = 1)"
proof -
  have a: "o_add (h_text 0) = 0" "o_CloseFunc (h_text 0) = Some DefaultCloseFunc"
    by (simp_all add: h_text_def NewTextOutput_def)
  have d: "DefaultCloseFunc (o_w (h_text 0)) (o_close (h_text 0)) x0
             = (None, x0\<lparr>writers := (writers x0)(0 := (writer0 None)\<lparr>close_calls := 1\<rparr>)\<rparr>)"
    by (simp add: DefaultCloseFunc_def h_text_def NewTextOutput_def x0_def writer0_def Let_def)
  from close_on_last_reference [where h = h_text and a = 0 and f = DefaultCloseFunc
      and x = x0 and es = ents0, OF a]
  show ?thesis
    unfolding d by (auto simp: writer0_def)
qed

section \<open>What each action changes\<close>

lemma deliver_chans:
  "deliver ops a st = Inr st' \<Longrightarrow> closed_chans st' = closed_chans st \<and> next_chan st' = next_chan st"
  by (auto simp: deliver_def split: sum.splits prod.splits)

lemma signal_chans:
  "signal d st = Inr st' \<Longrightarrow>
     next_chan st' = next_chan st \<and>
     closed_chans st' = (case d of None \<Rightarrow> closed_chans st | Some ch \<Rightarrow> insert ch (closed_chans st))"
  by (auto simp: signal_def split: option.splits if_splits)

lemma worker_process_effect:
  assumes "worker_process ops e s = Inr s'"
  shows "m_ch s' = m_ch s \<and> w_item s' = None \<and> next_chan s' = next_chan s \<and>
     closed_chans s' = (case me_done e of None \<Rightarrow> closed_chans s | Some ch \<Rightarrow> insert ch (closed_chans s))"
proof -
  from assms obtain st1 st2 where
    d: "(case me_entry e of None \<Rightarrow> Inr s | Some a \<Rightarrow> deliver ops a s) = Inr st1" and
    sg: "signal (me_done e) st1 = Inr st2" and
    r: "s' = st2\<lparr>w_item := None\<rparr>"
    by (auto simp: worker_process_def bindF_def split: sum.splits)
  from d have "closed_chans st1 = closed_chans s \<and> next_chan st1 = next_chan s"
    by (auto split: option.splits dest: deliver_chans)
  with signal_chans [OF sg] worker_process_queue [OF assms] r show ?thesis
    by (simp split: option.splits)
qed

lemma fire_Call:
  assumes "fire ops prog (Call t) c = Some c'"
  shows "pcs c t = Idle \<and>
    (c' = c\<lparr>sys := (if allocates (prog t) then (sys c)\<lparr>next_chan := Suc (next_chan (sys c))\<rparr> else sys c),
           pcs := (pcs c)(t := Done (Some ErrManagerClosed)),
           called := (called c)(t := Some (clock c)),
           returned := (returned c)(t := Some (clock c)), clock := Suc (clock c)\<rparr> \<or>
     c' = c\<lparr>sys := (if allocates (prog t) then (sys c)\<lparr>next_chan := Suc (next_chan (sys c))\<rparr> else sys c),
           pcs := (pcs c)(t := (case prog t of LogCall entry block \<Rightarrow> Sending (item_of (prog t) (next_chan (sys c)))
                                 | CloseCall \<Rightarrow> Storing (item_of (prog t) (next_chan (sys c))))),
           called := (called c)(t := Some (clock c)), clock := Suc (clock c)\<rparr>)"
  using assms by (simp add: fire_def Let_def split: pc.splits if_splits)

lemma fire_Store:
  assumes "fire ops prog (Store t) c = Some c'"
  shows "\<exists>e. pcs c t = Storing e \<and>
    c' = c\<lparr>sys := (sys c)\<lparr>m_b := True\<rparr>, pcs := (pcs c)(t := Sending e), clock := Suc (clock c)\<rparr>"
  using assms by (simp add: fire_def Let_def split: pc.splits if_splits)

lemma fire_Send:
  assumes "fire ops prog (Send t) c = Some c'"
  shows "\<exists>e. pcs c t = Sending e \<and>
    c' = c\<lparr>sys := (sys c)\<lparr>m_ch := m_ch (sys c) @ [e]\<rparr>,
           owners := owners c @ [t],
           sent := (sent c)(t := Some (clock c)),
           pcs := (pcs c)(t :=
             (case me_done e of
                None \<Rightarrow> Done None
              | Some ch \<Rightarrow> (case prog t of LogCall entry block \<Rightarrow> Waiting ch
                            | CloseCall \<Rightarrow> Closing ch))),
           returned := (case me_done e of
                          None \<Rightarrow> (returned c)(t := Some (clock c))
                        | Some ch \<Rightarrow> returned c),
           clock := Suc (clock c)\<rparr>"
  using assms by (simp add: fire_def Let_def split: pc.splits if_splits)

lemma fire_CloseCh:
  assumes "fire ops prog (CloseCh t) c = Some c'"
  shows "\<exists>ch. pcs c t = Closing ch \<and>
    c' = c\<lparr>sys := (sys c)\<lparr>m_ch_closed := True\<rparr>, pcs := (pcs c)(t := Waiting ch),
           clock := Suc (clock c)\<rparr>"
  using assms by (simp add: fire_def Let_def split: pc.splits if_splits)

lemma fire_Wait:
  assumes "fire ops prog (Wait t) c = Some c'"
  shows "\<exists>ch. pcs c t = Waiting ch \<and> ch \<in> closed_chans (sys c) \<and>
    ((\<exists>entry block. prog t = LogCall entry block) \<and>
       c' = c\<lparr>pcs := (pcs c)(t := Done None),
              returned := (returned c)(t := Some (clock c)), clock := Suc (clock c)\<rparr> \<or>
     prog t = CloseCall \<and> c' = c\<lparr>pcs := (pcs c)(t := Finishing), clock := Suc (clock c)\<rparr>)"
  using assms by (simp add: fire_def Let_def split: pc.splits if_splits request.splits)

lemma fire_Finish:
  assumes "fire ops prog (Finish t) c = Some c'"
  shows "pcs c t = Finishing \<and>
    pcs c' = (pcs c)(t := Done None) \<and> returned c' = (returned c)(t := Some (clock c)) \<and>
    clock c' = Suc (clock c) \<and> owners c' = owners c \<and> called c' = called c \<and>
    sent c' = sent c \<and> passed c' = passed c \<and>
    next_chan (sys c') = next_chan (sys c) \<and> closed_chans (sys c') = closed_chans (sys c) \<and>
    m_ch (sys c') = m_ch (sys c) \<and> w_item (sys c') = w_item (sys c)"
  using assms by (auto simp add: fire_def Let_def split: pc.splits if_splits prod.splits)

lemma fire_Recv:
  assumes "fire ops prog Recv c = Some c'"
  shows "\<exists>e q. w_item (sys c) = None \<and> m_ch (sys c) = e # q \<and>
    c' = c\<lparr>sys := (sys c)\<lparr>m_ch := q, w_item := Some e\<rparr>, clock := Suc (clock c)\<rparr>"
  using assms by (simp add: fire_def Let_def split: option.splits list.splits)

lemma fire_Process:
  assumes "fire ops prog Process c = Some c'"
  shows "\<exists>e s'. w_item (sys c) = Some e \<and> worker_process ops e (sys c) = Inr s' \<and>
    (owners c = [] \<and> c' = c\<lparr>sys := s', clock := Suc (clock c)\<rparr> \<or>
     (\<exists>u us. owners c = u # us \<and>
        c' = c\<lparr>sys := s', owners := us, passed := (passed c)(u := Some (clock c)),
               clock := Suc (clock c)\<rparr>))"
  using assms by (simp add: fire_def Let_def split: option.splits list.splits if_splits sum.splits)

lemma fire_other:
  assumes "fire ops prog a c = Some c'"
    and "a = DoLock \<or> a = DoUnlock \<or> (\<exists>out. a = Add out) \<or> (\<exists>out. a = Remove out)"
  shows "pcs c' = pcs c \<and> returned c' = returned c \<and>
    clock c' = Suc (clock c) \<and> owners c' = owners c \<and> called c' = called c \<and>
    sent c' = sent c \<and> passed c' = passed c \<and>
    next_chan (sys c') = next_chan (sys c) \<and> closed_chans (sys c') = closed_chans (sys c) \<and>
    m_ch (sys c') = m_ch (sys c) \<and> w_item (sys c') = w_item (sys c)"
proof -
  consider "a = DoLock" | "a = DoUnlock" | out where "a = Add out" | out where "a = Remove out"
    using assms(2) by blast
  then show ?thesis
  proof cases
    case 1
    with assms(1) show ?thesis
      by (auto simp add: fire_def Let_def Lock_def split: if_splits)
  next
    case 2
    with assms(1) show ?thesis
      by (auto simp add: fire_def Let_def Unlock_def split: if_splits)
  next
    case 3
    with assms(1) show ?thesis
      by (auto simp add: fire_def Let_def addOutput_def split: if_splits prod.splits)
  next
    case 4
    with assms(1) show ?thesis
      by (auto simp add: fire_def Let_def removeOutput_def split: if_splits option.splits)
  qed
qed

section \<open>Every action keeps the invariants\<close>

lemma inv_time_step:
  assumes i: "inv prog c" and f: "fire ops prog a c = Some c'"
  shows "inv_time c'"
proof -
  from i have t: "inv_time c" by (simp add: inv_def)
  show ?thesis
  proof (cases a)
    case (Call t)
    note e = fire_Call [OF f [unfolded Call]]
    from e t show ?thesis
      by (auto simp: inv_time_def less_Suc_eq split: if_splits option.splits)
  next
    case (Store t)
    note e = fire_Store [OF f [unfolded Store]]
    from e t show ?thesis
      by (auto simp: inv_time_def less_Suc_eq split: if_splits option.splits)
  next
    case (Send t)
    note e = fire_Send [OF f [unfolded Send]]
    from e t show ?thesis
      by (auto simp: inv_time_def less_Suc_eq split: if_splits option.splits)
  next
    case (CloseCh t)
    note e = fire_CloseCh [OF f [unfolded CloseCh]]
    from e t show ?thesis
      by (auto simp: inv_time_def less_Suc_eq split: if_splits option.splits)
  next
    case (Wait t)
    note e = fire_Wait [OF f [unfolded Wait]]
    from e t show ?thesis
      by (auto simp: inv_time_def less_Suc_eq split: if_splits option.splits)
  next
    case (Finish t)
    note e = fire_Finish [OF f [unfolded Finish]]
    from e t show ?thesis
      by (auto simp: inv_time_def less_Suc_eq split: if_splits option.splits)
  next
    case Recv
    note e = fire_Recv [OF f [unfolded Recv]]
    from e t show ?thesis
      by (auto simp: inv_time_def less_Suc_eq split: if_splits option.splits)
  next
    case Process
    note e = fire_Process [OF f [unfolded Process]]
    from e t show ?thesis
      by (auto simp: inv_time_def less_Suc_eq split: if_splits option.splits)
  next
    case DoLock
    then have "a = DoLock \<or> a = DoUnlock \<or> (\<exists>out. a = Add out) \<or> (\<exists>out. a = Remove out)"
      by simp
    note e = fire_other [OF f this]
    from e t show ?thesis
      by (auto simp: inv_time_def less_Suc_eq split: if_splits option.splits)
  next
    case DoUnlock
    then have "a = DoLock \<or> a = DoUnlock \<or> (\<exists>out. a = Add out) \<or> (\<exists>out. a = Remove out)"
      by simp
    note e = fire_other [OF f this]
    from e t show ?thesis
      by (auto simp: inv_time_def less_Suc_eq split: if_splits option.splits)
  next
    case (Add out)
    then have "a = DoLock \<or> a = DoUnlock \<or> (\<exists>out. a = Add out) \<or> (\<exists>out. a = Remove out)"
      by simp
    note e = fire_other [OF f this]
    from e t show ?thesis
      by (auto simp: inv_time_def less_Suc_eq split: if_splits option.splits)
  next
    case (Remove out)
    then have "a = DoLock \<or> a = DoUnlock \<or> (\<exists>out. a = Add out) \<or> (\<exists>out. a = Remove out)"
      by simp
    note e = fire_other [OF f this]
    from e t show ?thesis
      by (auto simp: inv_time_def less_Suc_eq split: if_splits option.splits)
  qed
qed

lemma inv_pc_step:
  assumes i: "inv prog c" and f: "fire ops prog a c = Some c'"
  shows "inv_pc prog c'"
proof -
  from i have t: "inv_pc prog c" by (simp add: inv_def)
  show ?thesis
  proof (cases a)
    case (Call t)
    note e = fire_Call [OF f [unfolded Call]]
    from e t show ?thesis
      by (auto simp: inv_pc_def split: if_splits option.splits request.splits)
  next
    case (Store t)
    note e = fire_Store [OF f [unfolded Store]]
    from e t show ?thesis
      by (auto simp: inv_pc_def split: if_splits option.splits request.splits)
  next
    case (Send t)
    note e = fire_Send [OF f [unfolded Send]]
    from e t show ?thesis
      by (auto simp: inv_pc_def split: if_splits option.splits request.splits)
  next
    case (CloseCh t)
    note e = fire_CloseCh [OF f [unfolded CloseCh]]
    from e t show ?thesis
      by (auto simp: inv_pc_def split: if_splits option.splits request.splits)
  next
    case (Wait t)
    note e = fire_Wait [OF f [unfolded Wait]]
    from e t show ?thesis
      by (auto simp: inv_pc_def split: if_splits option.splits request.splits)
  next
    case (Finish t)
    note e = fire_Finish [OF f [unfolded Finish]]
    from e t show ?thesis
      by (auto simp: inv_pc_def split: if_splits option.splits request.splits)
  next
    case Recv
    note e = fire_Recv [OF f [unfolded Recv]]
    from e t show ?thesis
      by (auto simp: inv_pc_def split: if_splits option.splits request.splits)
  next
    case Process
    note e = fire_Process [OF f [unfolded Process]]
    from e t show ?thesis
      by (auto simp: inv_pc_def split: if_splits option.splits request.splits)
  next
    case DoLock
    then have "a = DoLock \<or> a = DoUnlock \<or> (\<exists>out. a = Add out) \<or> (\<exists>out. a = Remove out)"
      by simp
    note e = fire_other [OF f this]
    from e t show ?thesis
      by (auto simp: inv_pc_def split: if_splits option.splits request.splits)
  next
    case DoUnlock
    then have "a = DoLock \<or> a = DoUnlock \<or> (\<exists>out. a = Add out) \<or> (\<exists>out. a = Remove out)"
      by simp
    note e = fire_other [OF f this]
    from e t show ?thesis
      by (auto simp: inv_pc_def split: if_splits option.splits request.splits)
  next
    case (Add out)
    then have "a = DoLock \<or> a = DoUnlock \<or> (\<exists>out. a = Add out) \<or> (\<exists>out. a = Remove out)"
      by simp
    note e = fire_other [OF f this]
    from e t show ?thesis
      by (auto simp: inv_pc_def split: if_splits option.splits request.splits)
  next
    case (Remove out)
    then have "a = DoLock \<or> a = DoUnlock \<or> (\<exists>out. a = Add out) \<or> (\<exists>out. a = Remove out)"
      by simp
    note e = fire_other [OF f this]
    from e t show ?thesis
      by (auto simp: inv_pc_def split: if_splits option.splits request.splits)
  qed
qed


lemma me_done_item_of:
  "me_done (item_of r n) = (if allocates r then Some n else None)"
  by (simp add: item_of_def allocates_def split: request.splits)

lemma chan_view:
  assumes f: "fire ops prog a c = Some c'" and np: "a \<noteq> Process"
  shows "\<exists>t CH. (\<forall>x. chan_at (pcs c' x) = (if x = t then CH else chan_at (pcs c x))) \<and>
     (CH = chan_at (pcs c t) \<or> CH = None \<or>
      (CH = Some (next_chan (sys c)) \<and> next_chan (sys c') = Suc (next_chan (sys c)))) \<and>
     next_chan (sys c) \<le> next_chan (sys c') \<and>
     closed_chans (sys c') = closed_chans (sys c) \<and> passed c' = passed c"
proof (cases a)
  case (Call t)
  note e = fire_Call [OF f [unfolded Call]]
  show ?thesis
  proof (cases "allocates (prog t)")
    case True
    with e show ?thesis
      by (intro exI[of _ t]) (auto simp: me_done_item_of split: request.splits)
  next
    case False
    with e show ?thesis
      by (intro exI[of _ t] exI[of _ None]) (auto simp: me_done_item_of split: request.splits)
  qed
next
  case (Store t)
  from fire_Store [OF f [unfolded Store]] show ?thesis
    by (intro exI[of _ t] exI[of _ "chan_at (pcs c t)"]) auto
next
  case (Send t)
  from fire_Send [OF f [unfolded Send]] show ?thesis
    by (intro exI[of _ t] exI[of _ "chan_at (pcs c t)"])
       (auto split: option.splits request.splits)
next
  case (CloseCh t)
  from fire_CloseCh [OF f [unfolded CloseCh]] show ?thesis
    by (intro exI[of _ t] exI[of _ "chan_at (pcs c t)"]) auto
next
  case (Wait t)
  from fire_Wait [OF f [unfolded Wait]] show ?thesis
    by (intro exI[of _ t] exI[of _ None]) auto
next
  case (Finish t)
  from fire_Finish [OF f [unfolded Finish]] show ?thesis
    by (intro exI[of _ t] exI[of _ None]) auto
next
  case Recv
  from fire_Recv [OF f [unfolded Recv]] show ?thesis
    by (intro exI[of _ 0] exI[of _ "chan_at (pcs c 0)"]) auto
next
  case Process
  with np show ?thesis by simp
next
  case DoLock
  then have "a = DoLock \<or> a = DoUnlock \<or> (\<exists>out. a = Add out) \<or> (\<exists>out. a = Remove out)"
    by simp
  from fire_other [OF f this] show ?thesis
    by (intro exI[of _ 0] exI[of _ "chan_at (pcs c 0)"]) auto
next
  case DoUnlock
  then have "a = DoLock \<or> a = DoUnlock \<or> (\<exists>out. a = Add out) \<or> (\<exists>out. a = Remove out)"
    by simp
  from fire_other [OF f this] show ?thesis
    by (intro exI[of _ 0] exI[of _ "chan_at (pcs c 0)"]) auto
next
  case (Add out)
  then have "a = DoLock \<or> a = DoUnlock \<or> (\<exists>out. a = Add out) \<or> (\<exists>out. a = Remove out)"
    by simp
  from fire_other [OF f this] show ?thesis
    by (intro exI[of _ 0] exI[of _ "chan_at (pcs c 0)"]) auto
next
  case (Remove out)
  then have "a = DoLock \<or> a = DoUnlock \<or> (\<exists>out. a = Add out) \<or> (\<exists>out. a = Remove out)"
    by simp
  from fire_other [OF f this] show ?thesis
    by (intro exI[of _ 0] exI[of _ "chan_at (pcs c 0)"]) auto
qed


lemma inv_flight_head:
  assumes "inv_flight c" and "w_item (sys c) = Some it"
  shows "\<exists>u us. owners c = u # us \<and> length us = length (m_ch (sys c)) \<and>
     (\<forall>ch. me_done it = Some ch \<longrightarrow> chan_at (pcs c u) = Some ch) \<and>
     sent c u \<noteq> None \<and> passed c u = None"
proof -
  from assms(2) have fl: "inflight (sys c) = it # m_ch (sys c)" by (simp add: inflight_def)
  with assms(1) obtain u us where o: "owners c = u # us" "length us = length (m_ch (sys c))"
    by (cases "owners c") (auto simp: inv_flight_def)
  from assms(1) have
    "\<forall>i ch. i < length (owners c) \<and> me_done (inflight (sys c) ! i) = Some ch
         \<longrightarrow> chan_at (pcs c (owners c ! i)) = Some ch"
    by (simp add: inv_flight_def)
  from this [THEN spec, of 0] fl o
  have "\<forall>ch. me_done it = Some ch \<longrightarrow> chan_at (pcs c u) = Some ch" by simp
  moreover from assms(1) o have "sent c u \<noteq> None \<and> passed c u = None"
    by (simp add: inv_flight_def)
  ultimately show ?thesis using o by blast
qed

lemma inv_chan_step:
  assumes i: "inv prog c" and f: "fire ops prog a c = Some c'"
  shows "inv_chan c'"
proof (cases "a = Process")
  case False
  from i have k: "inv_chan c" by (simp add: inv_def)
  from chan_view [OF f False] obtain t CH where
    v: "\<And>x. chan_at (pcs c' x) = (if x = t then CH else chan_at (pcs c x))" and
    ch: "CH = chan_at (pcs c t) \<or> CH = None \<or>
      (CH = Some (next_chan (sys c)) \<and> next_chan (sys c') = Suc (next_chan (sys c)))" and
    n: "next_chan (sys c) \<le> next_chan (sys c')" and
    cl: "closed_chans (sys c') = closed_chans (sys c)" and
    p: "passed c' = passed c"
    by blast
  from k have k1: "\<And>x n. chan_at (pcs c x) = Some n \<Longrightarrow> n < next_chan (sys c)"
    and k2: "\<And>x y n. chan_at (pcs c x) = Some n \<Longrightarrow> chan_at (pcs c y) = Some n \<Longrightarrow> x = y"
    and k3: "\<And>n. n \<in> closed_chans (sys c) \<Longrightarrow> n < next_chan (sys c)"
    and k4: "\<And>x n. chan_at (pcs c x) = Some n \<Longrightarrow> n \<in> closed_chans (sys c) \<Longrightarrow> passed c x \<noteq> None"
    by (auto simp: inv_chan_def)
  from ch consider (old) "CH = chan_at (pcs c t)" | (none) "CH = None"
    | (new) "CH = Some (next_chan (sys c))" "next_chan (sys c') = Suc (next_chan (sys c))"
    by blast
  then show ?thesis
  proof cases
    case old
    with v have v': "\<And>x. chan_at (pcs c' x) = chan_at (pcs c x)" by simp
    have "\<forall>x ch. chan_at (pcs c' x) = Some ch \<longrightarrow> ch < next_chan (sys c')"
      using k1 n by (auto simp: v' intro: less_le_trans)
    moreover have "\<forall>x y ch. chan_at (pcs c' x) = Some ch \<and> chan_at (pcs c' y) = Some ch \<longrightarrow> x = y"
      using k2 by (auto simp: v')
    moreover have "\<forall>ch. ch \<in> closed_chans (sys c') \<longrightarrow> ch < next_chan (sys c')"
      using cl k3 n by (auto intro: less_le_trans)
    moreover have "\<forall>x ch. chan_at (pcs c' x) = Some ch \<and> ch \<in> closed_chans (sys c') \<longrightarrow> passed c' x \<noteq> None"
      using k4 cl p by (auto simp: v')
    ultimately show ?thesis unfolding inv_chan_def by blast
  next
    case none
    have "\<forall>x ch. chan_at (pcs c' x) = Some ch \<longrightarrow> ch < next_chan (sys c')"
      using v none k1 n by (auto split: if_splits intro: less_le_trans)
    moreover have "\<forall>x y ch. chan_at (pcs c' x) = Some ch \<and> chan_at (pcs c' y) = Some ch \<longrightarrow> x = y"
      using v none k2 by (auto split: if_splits)
    moreover have "\<forall>ch. ch \<in> closed_chans (sys c') \<longrightarrow> ch < next_chan (sys c')"
      using cl k3 n by (auto intro: less_le_trans)
    moreover have "\<forall>x ch. chan_at (pcs c' x) = Some ch \<and> ch \<in> closed_chans (sys c') \<longrightarrow> passed c' x \<noteq> None"
      using v none k4 cl p by (auto split: if_splits)
    ultimately show ?thesis unfolding inv_chan_def by blast
  next
    case new
    have fresh: "\<And>x. chan_at (pcs c x) \<noteq> Some (next_chan (sys c))"
      "next_chan (sys c) \<notin> closed_chans (sys c)"
      using k1 [of _ "next_chan (sys c)"] k3 [of "next_chan (sys c)"] by auto
    have "\<forall>x ch. chan_at (pcs c' x) = Some ch \<longrightarrow> ch < next_chan (sys c')"
      using v new k1 by (auto split: if_splits intro: less_SucI)
    moreover have "\<forall>x y ch. chan_at (pcs c' x) = Some ch \<and> chan_at (pcs c' y) = Some ch \<longrightarrow> x = y"
      using v new(1) k2 fresh(1) by (auto split: if_splits)
    moreover have "\<forall>ch. ch \<in> closed_chans (sys c') \<longrightarrow> ch < next_chan (sys c')"
      using cl k3 new(2) by (auto intro: less_SucI)
    moreover have "\<forall>x ch. chan_at (pcs c' x) = Some ch \<and> ch \<in> closed_chans (sys c') \<longrightarrow> passed c' x \<noteq> None"
      using v new(1) k4 cl p fresh(2) by (auto split: if_splits)
    ultimately show ?thesis unfolding inv_chan_def by blast
  qed
next
  case True
  from i have t: "inv_chan c" "inv_flight c" by (simp_all add: inv_def)
  note e = fire_Process [OF f [unfolded True]]
  from e obtain it s' where w: "w_item (sys c) = Some it" and
    wp: "worker_process ops it (sys c) = Inr s'" and
    cs: "owners c = [] \<and> c' = c\<lparr>sys := s', clock := Suc (clock c)\<rparr> \<or>
     (\<exists>u us. owners c = u # us \<and>
        c' = c\<lparr>sys := s', owners := us, passed := (passed c)(u := Some (clock c)),
               clock := Suc (clock c)\<rparr>)"
    by blast
  from inv_flight_head [OF t(2) w] obtain u us where o: "owners c = u # us"
    and q: "\<And>ch. me_done it = Some ch \<Longrightarrow> chan_at (pcs c u) = Some ch"
    by blast
  with cs have c': "c' = c\<lparr>sys := s', owners := us, passed := (passed c)(u := Some (clock c)),
               clock := Suc (clock c)\<rparr>"
    by simp
  note ef = worker_process_effect [OF wp]
  from t(1) have k1: "\<And>x n. chan_at (pcs c x) = Some n \<Longrightarrow> n < next_chan (sys c)"
    and k2: "\<And>x y n. chan_at (pcs c x) = Some n \<Longrightarrow> chan_at (pcs c y) = Some n \<Longrightarrow> x = y"
    and k3: "\<And>n. n \<in> closed_chans (sys c) \<Longrightarrow> n < next_chan (sys c)"
    and k4: "\<And>x n. chan_at (pcs c x) = Some n \<Longrightarrow> n \<in> closed_chans (sys c) \<Longrightarrow> passed c x \<noteq> None"
    by (auto simp: inv_chan_def)
  have pcs': "pcs c' = pcs c" and nx: "next_chan (sys c') = next_chan (sys c)"
    and ps: "\<And>x. passed c x \<noteq> None \<Longrightarrow> passed c' x \<noteq> None" "passed c' u \<noteq> None"
    using ef by (simp_all add: c')
  have cl: "\<And>n. n \<in> closed_chans (sys c') \<Longrightarrow> n \<in> closed_chans (sys c) \<or> me_done it = Some n"
    using ef by (auto simp: c' split: option.splits)
  have "\<forall>x ch. chan_at (pcs c' x) = Some ch \<longrightarrow> ch < next_chan (sys c')"
    using k1 by (simp add: pcs' nx)
  moreover have "\<forall>x y ch. chan_at (pcs c' x) = Some ch \<and> chan_at (pcs c' y) = Some ch \<longrightarrow> x = y"
    using k2 by (auto simp: pcs')
  moreover have "\<forall>ch. ch \<in> closed_chans (sys c') \<longrightarrow> ch < next_chan (sys c')"
  proof (intro allI impI)
    fix ch assume "ch \<in> closed_chans (sys c')"
    from cl [OF this] show "ch < next_chan (sys c')"
      using k3 k1 q by (auto simp: nx)
  qed
  moreover have "\<forall>x ch. chan_at (pcs c' x) = Some ch \<and> ch \<in> closed_chans (sys c') \<longrightarrow> passed c' x \<noteq> None"
  proof (intro allI impI)
    fix x ch assume a: "chan_at (pcs c' x) = Some ch \<and> ch \<in> closed_chans (sys c')"
    then have cx: "chan_at (pcs c x) = Some ch" by (simp add: pcs')
    from a cl have "ch \<in> closed_chans (sys c) \<or> me_done it = Some ch" by blast
    then show "passed c' x \<noteq> None"
    proof
      assume "ch \<in> closed_chans (sys c)"
      from ps(1) [OF k4 [OF cx this]] show ?thesis .
    next
      assume "me_done it = Some ch"
      from k2 [OF cx q [OF this]] ps(2) show ?thesis by simp
    qed
  qed
  ultimately show ?thesis unfolding inv_chan_def by blast
qed

lemma flight_view:
  assumes i: "inv prog c" and f: "fire ops prog a c = Some c'"
    and ns: "\<And>t. a \<noteq> Send t" and np: "a \<noteq> Process"
  shows "owners c' = owners c \<and> inflight (sys c') = inflight (sys c) \<and>
     sent c' = sent c \<and> passed c' = passed c \<and>
     (\<forall>x. x \<in> set (owners c) \<longrightarrow> chan_at (pcs c' x) = chan_at (pcs c x))"
proof -
  from i have fl: "inv_flight c" and pc: "inv_pc prog c" and k: "inv_chan c"
    by (simp_all add: inv_def)
  from fl have f3: "\<And>x. x \<in> set (owners c) \<Longrightarrow> sent c x \<noteq> None \<and> passed c x = None"
    unfolding inv_flight_def by blast
  show ?thesis
  proof (cases a)
    case (Call t)
    note e = fire_Call [OF f [unfolded Call]]
    then have "pcs c t = Idle" by simp
    with pc have "sent c t = None" by (simp add: inv_pc_def)
    with f3 [of t] have "t \<notin> set (owners c)" by auto
    with e show ?thesis by (auto simp: inflight_def split: if_splits)
  next
    case (Store t)
    from fire_Store [OF f [unfolded Store]] show ?thesis by (auto simp: inflight_def)
  next
    case (Send t)
    with ns show ?thesis by blast
  next
    case (CloseCh t)
    from fire_CloseCh [OF f [unfolded CloseCh]] show ?thesis by (auto simp: inflight_def)
  next
    case (Wait t)
    note e = fire_Wait [OF f [unfolded Wait]]
    then obtain ch where w: "pcs c t = Waiting ch" "ch \<in> closed_chans (sys c)" by blast
    with k have "passed c t \<noteq> None" by (simp add: inv_chan_def)
    with f3 [of t] have "t \<notin> set (owners c)" by auto
    with e show ?thesis by (auto simp: inflight_def)
  next
    case (Finish t)
    from fire_Finish [OF f [unfolded Finish]] show ?thesis by (auto simp: inflight_def)
  next
    case Recv
    from fire_Recv [OF f [unfolded Recv]] show ?thesis by (auto simp: inflight_def)
  next
    case Process
    with np show ?thesis by simp
  next
    case DoLock
    then have "a = DoLock \<or> a = DoUnlock \<or> (\<exists>out. a = Add out) \<or> (\<exists>out. a = Remove out)"
      by simp
    from fire_other [OF f this] show ?thesis by (simp add: inflight_def)
  next
    case DoUnlock
    then have "a = DoLock \<or> a = DoUnlock \<or> (\<exists>out. a = Add out) \<or> (\<exists>out. a = Remove out)"
      by simp
    from fire_other [OF f this] show ?thesis by (simp add: inflight_def)
  next
    case (Add out)
    then have "a = DoLock \<or> a = DoUnlock \<or> (\<exists>out. a = Add out) \<or> (\<exists>out. a = Remove out)"
      by simp
    from fire_other [OF f this] show ?thesis by (simp add: inflight_def)
  next
    case (Remove out)
    then have "a = DoLock \<or> a = DoUnlock \<or> (\<exists>out. a = Add out) \<or> (\<exists>out. a = Remove out)"
      by simp
    from fire_other [OF f this] show ?thesis by (simp add: inflight_def)
  qed
qed

lemma inv_flight_step:
  assumes i: "inv prog c" and f: "fire ops prog a c = Some c'"
  shows "inv_flight c'"
proof -
  from i have fl: "inv_flight c" and pc: "inv_pc prog c" and k: "inv_chan c"
    by (simp_all add: inv_def)
  from fl have f1: "length (owners c) = length (inflight (sys c))"
    and f2: "\<And>i ch. i < length (owners c) \<Longrightarrow> me_done (inflight (sys c) ! i) = Some ch
         \<Longrightarrow> chan_at (pcs c (owners c ! i)) = Some ch"
    and f3: "\<And>x. x \<in> set (owners c) \<Longrightarrow> sent c x \<noteq> None \<and> passed c x = None"
    and f4: "\<And>x. sent c x \<noteq> None \<Longrightarrow> passed c x = None \<Longrightarrow> x \<in> set (owners c)"
    and f5: "\<And>x. passed c x \<noteq> None \<Longrightarrow> sent c x \<noteq> None"
    and f6: "distinct (owners c)"
    unfolding inv_flight_def by blast+
  consider (send) t where "a = Send t" | (process) "a = Process"
    | (other) "\<And>t. a \<noteq> Send t" "a \<noteq> Process"
    by blast
  then show ?thesis
  proof cases
    case other
    from flight_view [OF i f other] have
      o: "owners c' = owners c" and fl': "inflight (sys c') = inflight (sys c)" and
      s': "sent c' = sent c" and p': "passed c' = passed c" and
      ch': "\<And>x. x \<in> set (owners c) \<Longrightarrow> chan_at (pcs c' x) = chan_at (pcs c x)"
      by simp_all
    have "\<forall>i ch. i < length (owners c') \<and> me_done (inflight (sys c') ! i) = Some ch
         \<longrightarrow> chan_at (pcs c' (owners c' ! i)) = Some ch"
    proof (intro allI impI)
      fix i ch
      assume a: "i < length (owners c') \<and> me_done (inflight (sys c') ! i) = Some ch"
      then have l: "i < length (owners c)" and m: "me_done (inflight (sys c) ! i) = Some ch"
        by (simp_all add: o fl')
      from l have "owners c ! i \<in> set (owners c)" by simp
      from ch' [OF this] f2 [OF l m] show "chan_at (pcs c' (owners c' ! i)) = Some ch"
        by (simp add: o)
    qed
    moreover have "length (owners c') = length (inflight (sys c'))"
      using f1 by (simp add: o fl')
    moreover have "\<forall>x. x \<in> set (owners c') \<longrightarrow> sent c' x \<noteq> None \<and> passed c' x = None"
      using f3 by (simp add: o s' p')
    moreover have "\<forall>x. sent c' x \<noteq> None \<and> passed c' x = None \<longrightarrow> x \<in> set (owners c')"
      using f4 by (simp add: o s' p')
    moreover have "\<forall>x. passed c' x \<noteq> None \<longrightarrow> sent c' x \<noteq> None"
      using f5 by (simp add: s' p')
    moreover have "distinct (owners c')"
      using f6 by (simp add: o)
    ultimately show ?thesis unfolding inv_flight_def by blast
  next
    case send
    from fire_Send [OF f [unfolded send]] obtain e where
      p: "pcs c t = Sending e" and
      c': "c' = c\<lparr>sys := (sys c)\<lparr>m_ch := m_ch (sys c) @ [e]\<rparr>,
           owners := owners c @ [t],
           sent := (sent c)(t := Some (clock c)),
           pcs := (pcs c)(t :=
             (case me_done e of
                None \<Rightarrow> Done None
              | Some ch \<Rightarrow> (case prog t of LogCall entry block \<Rightarrow> Waiting ch
                            | CloseCall \<Rightarrow> Closing ch))),
           returned := (case me_done e of
                          None \<Rightarrow> (returned c)(t := Some (clock c))
                        | Some ch \<Rightarrow> returned c),
           clock := Suc (clock c)\<rparr>"
      by blast
    from p pc have st: "sent c t = None" by (simp add: inv_pc_def)
    with f3 [of t] f5 [of t] have nt: "t \<notin> set (owners c)" "passed c t = None"
      by (cases "passed c t"; auto)+
    have o: "owners c' = owners c @ [t]" and fl': "inflight (sys c') = inflight (sys c) @ [e]"
      and s': "sent c' = (sent c)(t := Some (clock c))" and p': "passed c' = passed c"
      by (simp_all add: c' inflight_def)
    have ch': "chan_at (pcs c' t) = me_done e"
      "\<And>x. x \<noteq> t \<Longrightarrow> chan_at (pcs c' x) = chan_at (pcs c x)"
      by (simp_all add: c' split: option.splits request.splits)
    have "\<forall>i ch. i < length (owners c') \<and> me_done (inflight (sys c') ! i) = Some ch
         \<longrightarrow> chan_at (pcs c' (owners c' ! i)) = Some ch"
    proof (intro allI impI)
      fix i ch
      assume a: "i < length (owners c') \<and> me_done (inflight (sys c') ! i) = Some ch"
      show "chan_at (pcs c' (owners c' ! i)) = Some ch"
      proof (cases "i < length (owners c)")
        case True
        then have "owners c ! i \<in> set (owners c)" by simp
        with nt have ne: "owners c ! i \<noteq> t" by blast
        from True a f1 have "me_done (inflight (sys c) ! i) = Some ch"
          by (simp add: fl' nth_append)
        from f2 [OF True this] True ne show ?thesis
          by (simp add: o nth_append ch'(2))
      next
        case False
        with a have "i = length (owners c)" by (simp add: o)
        with a f1 show ?thesis by (simp add: o fl' nth_append ch'(1))
      qed
    qed
    moreover have "length (owners c') = length (inflight (sys c'))"
      using f1 by (simp add: o fl')
    moreover have "\<forall>x. x \<in> set (owners c') \<longrightarrow> sent c' x \<noteq> None \<and> passed c' x = None"
      using f3 nt by (auto simp: o s' p')
    moreover have "\<forall>x. sent c' x \<noteq> None \<and> passed c' x = None \<longrightarrow> x \<in> set (owners c')"
      using f4 by (auto simp: o s' p')
    moreover have "\<forall>x. passed c' x \<noteq> None \<longrightarrow> sent c' x \<noteq> None"
      using f5 by (auto simp: s' p')
    moreover have "distinct (owners c')"
      using f6 nt by (simp add: o)
    ultimately show ?thesis unfolding inv_flight_def by blast
  next
    case process
    from fire_Process [OF f [unfolded process]] obtain it s' where w: "w_item (sys c) = Some it" and
      wp: "worker_process ops it (sys c) = Inr s'" and
      cs: "owners c = [] \<and> c' = c\<lparr>sys := s', clock := Suc (clock c)\<rparr> \<or>
       (\<exists>u us. owners c = u # us \<and>
          c' = c\<lparr>sys := s', owners := us, passed := (passed c)(u := Some (clock c)),
                 clock := Suc (clock c)\<rparr>)"
      by blast
    from inv_flight_head [OF fl w] obtain u us where o: "owners c = u # us"
      by blast
    with cs have c': "c' = c\<lparr>sys := s', owners := us, passed := (passed c)(u := Some (clock c)),
                 clock := Suc (clock c)\<rparr>"
      by simp
    note ef = worker_process_effect [OF wp]
    from w have fl0: "inflight (sys c) = it # m_ch (sys c)" by (simp add: inflight_def)
    have fl': "inflight (sys c') = m_ch (sys c)" using ef by (simp add: c' inflight_def)
    have o': "owners c' = us" and pcs': "pcs c' = pcs c" and s': "sent c' = sent c"
      and p': "passed c' = (passed c)(u := Some (clock c))"
      by (simp_all add: c')
    from f6 o have nu: "u \<notin> set us" "distinct us" by simp_all
    have "\<forall>i ch. i < length (owners c') \<and> me_done (inflight (sys c') ! i) = Some ch
         \<longrightarrow> chan_at (pcs c' (owners c' ! i)) = Some ch"
    proof (intro allI impI)
      fix i ch
      assume a: "i < length (owners c') \<and> me_done (inflight (sys c') ! i) = Some ch"
      then have "Suc i < length (owners c)" "me_done (inflight (sys c) ! Suc i) = Some ch"
        by (simp_all add: o o' fl' fl0)
      from f2 [OF this] show "chan_at (pcs c' (owners c' ! i)) = Some ch"
        by (simp add: o o' pcs')
    qed
    moreover have "length (owners c') = length (inflight (sys c'))"
      using f1 by (simp add: o o' fl' fl0)
    moreover have "\<forall>x. x \<in> set (owners c') \<longrightarrow> sent c' x \<noteq> None \<and> passed c' x = None"
      using f3 nu by (auto simp: o o' s' p')
    moreover have "\<forall>x. sent c' x \<noteq> None \<and> passed c' x = None \<longrightarrow> x \<in> set (owners c')"
      using f4 by (auto simp: o o' s' p' split: if_splits)
    moreover have "\<forall>x. passed c' x \<noteq> None \<longrightarrow> sent c' x \<noteq> None"
      using f5 f3 [of u] by (auto simp: o s' p' split: if_splits)
    moreover have "distinct (owners c')"
      using nu by (simp add: o')
    ultimately show ?thesis unfolding inv_flight_def by blast
  qed
qed

lemma inv_fifo_step:
  assumes i: "inv prog c" and f: "fire ops prog a c = Some c'"
  shows "inv_fifo c'"
proof -
  from i have fl: "inv_flight c" and pc: "inv_pc prog c" and tm: "inv_time c" and ff: "inv_fifo c"
    by (simp_all add: inv_def)
  from fl have f3: "\<And>x. x \<in> set (owners c) \<Longrightarrow> sent c x \<noteq> None \<and> passed c x = None"
    and f4: "\<And>x. sent c x \<noteq> None \<Longrightarrow> passed c x = None \<Longrightarrow> x \<in> set (owners c)"
    and f5: "\<And>x. passed c x \<noteq> None \<Longrightarrow> sent c x \<noteq> None"
    unfolding inv_flight_def by blast+
  from ff have j2: "\<And>u v su sv pu. sent c u = Some su \<Longrightarrow> sent c v = Some sv \<Longrightarrow> sv < su \<Longrightarrow>
      passed c u = Some pu \<Longrightarrow> \<exists>pv. passed c v = Some pv \<and> pv < pu"
    and j3: "\<And>i v sv su. i < length (owners c) \<Longrightarrow> sent c v = Some sv \<Longrightarrow>
      sent c (owners c ! i) = Some su \<Longrightarrow> sv < su \<Longrightarrow>
      passed c v \<noteq> None \<or> (\<exists>j<i. owners c ! j = v)"
    unfolding inv_fifo_def by blast+
  from tm have t1: "\<And>x n. sent c x = Some n \<Longrightarrow> n < clock c"
    and t2: "\<And>x n. passed c x = Some n \<Longrightarrow> n < clock c"
    unfolding inv_time_def by blast+
  consider (send) t where "a = Send t" | (process) "a = Process"
    | (other) "\<And>t. a \<noteq> Send t" "a \<noteq> Process"
    by blast
  then show ?thesis
  proof cases
    case other
    from flight_view [OF i f other] have
      v: "owners c' = owners c" "sent c' = sent c" "passed c' = passed c"
      by simp_all
    from ff show ?thesis unfolding inv_fifo_def v .
  next
    case send
    from fire_Send [OF f [unfolded send]] obtain e where
      p: "pcs c t = Sending e" and
      o: "owners c' = owners c @ [t]" and
      s': "sent c' = (sent c)(t := Some (clock c))" and p': "passed c' = passed c"
      by auto
    from p pc have st: "sent c t = None" by (simp add: inv_pc_def)
    with f3 [of t] f5 [of t] have nt: "t \<notin> set (owners c)" "passed c t = None"
      by (cases "passed c t"; auto)+
    have "\<forall>u v su sv pu. sent c' u = Some su \<and> sent c' v = Some sv \<and> sv < su \<and> passed c' u = Some pu
         \<longrightarrow> (\<exists>pv. passed c' v = Some pv \<and> pv < pu)"
    proof (intro allI impI)
      fix u v su sv pu
      assume a: "sent c' u = Some su \<and> sent c' v = Some sv \<and> sv < su \<and> passed c' u = Some pu"
      with nt(2) have ut: "u \<noteq> t" by (auto simp: p')
      with a have su: "sent c u = Some su" by (simp add: s')
      have vt: "v \<noteq> t"
      proof
        assume "v = t"
        with a have "sv = clock c" by (simp add: s')
        with t1 [OF su] a show False by simp
      qed
      with a have sv: "sent c v = Some sv" by (simp add: s')
      from j2 [OF su sv] a show "\<exists>pv. passed c' v = Some pv \<and> pv < pu" by (simp add: p')
    qed
    moreover have "\<forall>i v sv su. i < length (owners c') \<and> sent c' v = Some sv \<and>
                   sent c' (owners c' ! i) = Some su \<and> sv < su
         \<longrightarrow> passed c' v \<noteq> None \<or> (\<exists>j<i. owners c' ! j = v)"
    proof (intro allI impI)
      fix i v sv su
      assume a: "i < length (owners c') \<and> sent c' v = Some sv \<and>
                   sent c' (owners c' ! i) = Some su \<and> sv < su"
      show "passed c' v \<noteq> None \<or> (\<exists>j<i. owners c' ! j = v)"
      proof (cases "i < length (owners c)")
        case True
        then have "owners c ! i \<in> set (owners c)" by simp
        with nt have ne: "owners c ! i \<noteq> t" by blast
        from True have oi: "owners c' ! i = owners c ! i" by (simp add: o nth_append)
        from a ne have su: "sent c (owners c ! i) = Some su" by (simp add: oi s')
        have vt: "v \<noteq> t"
        proof
          assume "v = t"
          with a have "sv = clock c" by (simp add: s')
          with t1 [OF su] a show False by simp
        qed
        with a have sv: "sent c v = Some sv" by (simp add: s')
        from j3 [OF True sv su] a have "passed c v \<noteq> None \<or> (\<exists>j<i. owners c ! j = v)" by simp
        then show ?thesis
        proof
          assume "passed c v \<noteq> None"
          then show ?thesis by (simp add: p')
        next
          assume "\<exists>j<i. owners c ! j = v"
          then obtain j where "j < i" "owners c ! j = v" by blast
          with True have "j < i \<and> owners c' ! j = v" by (simp add: o nth_append)
          then show ?thesis by blast
        qed
      next
        case False
        with a have il: "i = length (owners c)" by (simp add: o)
        then have "owners c' ! i = t" by (simp add: o)
        with a have "su = clock c" by (simp add: s')
        with a have vt: "v \<noteq> t" by (auto simp: s')
        with a have sv: "sent c v = Some sv" by (simp add: s')
        show ?thesis
        proof (cases "passed c v")
          case (Some pv)
          then show ?thesis by (simp add: p')
        next
          case None
          from f4 [OF _ None] sv have "v \<in> set (owners c)" by simp
          then obtain j where "j < length (owners c)" "owners c ! j = v"
            by (auto simp: in_set_conv_nth)
          with il have "j < i \<and> owners c' ! j = v" by (simp add: o nth_append)
          then show ?thesis by blast
        qed
      qed
    qed
    ultimately show ?thesis unfolding inv_fifo_def by blast
  next
    case process
    from fire_Process [OF f [unfolded process]] obtain it s' where w: "w_item (sys c) = Some it" and
      cs: "owners c = [] \<and> c' = c\<lparr>sys := s', clock := Suc (clock c)\<rparr> \<or>
       (\<exists>u us. owners c = u # us \<and>
          c' = c\<lparr>sys := s', owners := us, passed := (passed c)(u := Some (clock c)),
                 clock := Suc (clock c)\<rparr>)"
      by blast
    from inv_flight_head [OF fl w] obtain u0 us where o: "owners c = u0 # us"
      and pu0: "passed c u0 = None"
      by blast
    with cs have o': "owners c' = us" and s': "sent c' = sent c"
      and p': "passed c' = (passed c)(u0 := Some (clock c))"
      by auto
    have keep: "\<And>v pv. passed c v = Some pv \<Longrightarrow> passed c' v = Some pv"
      using pu0 by (auto simp: p')
    have "\<forall>u v su sv pu. sent c' u = Some su \<and> sent c' v = Some sv \<and> sv < su \<and> passed c' u = Some pu
         \<longrightarrow> (\<exists>pv. passed c' v = Some pv \<and> pv < pu)"
    proof (intro allI impI)
      fix u v su sv pu
      assume a: "sent c' u = Some su \<and> sent c' v = Some sv \<and> sv < su \<and> passed c' u = Some pu"
      then have su: "sent c u = Some su" and sv: "sent c v = Some sv" and lt: "sv < su"
        by (simp_all add: s')
      show "\<exists>pv. passed c' v = Some pv \<and> pv < pu"
      proof (cases "u = u0")
        case True
        with a have pu: "pu = clock c" by (simp add: p')
        from su True o have "sent c (owners c ! 0) = Some su" by simp
        from j3 [OF _ sv this lt] o have "passed c v \<noteq> None" by simp
        then obtain pv where pv: "passed c v = Some pv" by blast
        from keep [OF pv] t2 [OF pv] pu show ?thesis by simp
      next
        case False
        with a have "passed c u = Some pu" by (simp add: p')
        from j2 [OF su sv lt this] obtain pv where pv: "passed c v = Some pv" "pv < pu" by blast
        from keep [OF pv(1)] pv(2) show ?thesis by simp
      qed
    qed
    moreover have "\<forall>i v sv su. i < length (owners c') \<and> sent c' v = Some sv \<and>
                   sent c' (owners c' ! i) = Some su \<and> sv < su
         \<longrightarrow> passed c' v \<noteq> None \<or> (\<exists>j<i. owners c' ! j = v)"
    proof (intro allI impI)
      fix i v sv su
      assume a: "i < length (owners c') \<and> sent c' v = Some sv \<and>
                   sent c' (owners c' ! i) = Some su \<and> sv < su"
      then have l: "Suc i < length (owners c)" and sv: "sent c v = Some sv"
        and su: "sent c (owners c ! Suc i) = Some su" and lt: "sv < su"
        by (simp_all add: o o' s')
      from j3 [OF l sv su lt] have "passed c v \<noteq> None \<or> (\<exists>j<Suc i. owners c ! j = v)" .
      then show "passed c' v \<noteq> None \<or> (\<exists>j<i. owners c' ! j = v)"
      proof
        assume "passed c v \<noteq> None"
        then show ?thesis using keep by blast
      next
        assume "\<exists>j<Suc i. owners c ! j = v"
        then obtain j where j: "j < Suc i" "owners c ! j = v" by blast
        show ?thesis
        proof (cases j)
          case 0
          with j o have "v = u0" by simp
          then show ?thesis by (simp add: p')
        next
          case (Suc k)
          with j o have "k < i \<and> owners c' ! k = v" by (simp add: o')
          then show ?thesis by blast
        qed
      qed
    qed
    ultimately show ?thesis unfolding inv_fifo_def by blast
  qed
qed


lemma inv_ret_step:
  assumes i: "inv prog c" and f: "fire ops prog a c = Some c'"
  shows "inv_ret prog c'"
proof -
  from i have r: "inv_ret prog c" and pc: "inv_pc prog c" and tm: "inv_time c"
    and k: "inv_chan c" and fl: "inv_flight c"
    by (simp_all add: inv_def)
  from r have a1: "\<And>x entry. pcs c x = Done None \<Longrightarrow> prog x = LogCall entry True \<Longrightarrow>
        \<exists>p r. passed c x = Some p \<and> returned c x = Some r \<and> p < r"
    and r1: "\<And>x. pcs c x = Done None \<Longrightarrow> \<exists>s r. sent c x = Some s \<and> returned c x = Some r \<and> s \<le> r"
    and r2: "\<And>x s. sent c x = Some s \<Longrightarrow> \<exists>k. called c x = Some k \<and> k < s"
    unfolding inv_ret_def by blast+
  from tm have t1: "\<And>x n. sent c x = Some n \<Longrightarrow> n < clock c"
    and t2: "\<And>x n. passed c x = Some n \<Longrightarrow> n < clock c"
    and t3: "\<And>x n. called c x = Some n \<Longrightarrow> n < clock c"
    unfolding inv_time_def by blast+
  from pc have p1: "\<And>x. pcs c x = Idle \<Longrightarrow> sent c x = None"
    and p2: "\<And>x e. pcs c x = Sending e \<Longrightarrow> sent c x = None \<and> called c x \<noteq> None \<and> (\<exists>ch. e = item_of (prog x) ch)"
    and p3: "\<And>x ch. pcs c x = Waiting ch \<Longrightarrow> sent c x \<noteq> None"
    and p4: "\<And>x. pcs c x = Finishing \<Longrightarrow> sent c x \<noteq> None \<and> prog x = CloseCall"
    unfolding inv_pc_def by blast+
  from k have k4: "\<And>x n. chan_at (pcs c x) = Some n \<Longrightarrow> n \<in> closed_chans (sys c) \<Longrightarrow> passed c x \<noteq> None"
    unfolding inv_chan_def by blast
  note t = a1 r1 r2
  show ?thesis
  proof (cases a)
    case (Call t)
    note e = fire_Call [OF f [unfolded Call]]
    from e have px: "pcs c t = Idle"
      and v: "\<And>x. x \<noteq> t \<Longrightarrow> pcs c' x = pcs c x" "pcs c' t \<noteq> Done None"
        "sent c' = sent c" "passed c' = passed c"
        "\<And>x. x \<noteq> t \<Longrightarrow> returned c' x = returned c x"
        "\<And>x. x \<noteq> t \<Longrightarrow> called c' x = called c x"
      by (auto split: request.splits)
    have d: "\<And>x. pcs c' x = Done None \<Longrightarrow> pcs c x = Done None \<and> x \<noteq> t"
      using v(1,2) by metis
    have st: "sent c t = None" using p1 [OF px] .
    have "\<forall>x entry. pcs c' x = Done None \<and> prog x = LogCall entry True
         \<longrightarrow> (\<exists>p r. passed c' x = Some p \<and> returned c' x = Some r \<and> p < r)"
      using d a1 v(4,5) by auto
    moreover have "\<forall>x. pcs c' x = Done None
         \<longrightarrow> (\<exists>s r. sent c' x = Some s \<and> returned c' x = Some r \<and> s \<le> r)"
      using d r1 v(3,5) by auto
    moreover have "\<forall>x s. sent c' x = Some s \<longrightarrow> (\<exists>k. called c' x = Some k \<and> k < s)"
    proof (intro allI impI)
      fix x s assume "sent c' x = Some s"
      then have sx: "sent c x = Some s" by (simp add: v(3))
      with st have "x \<noteq> t" by auto
      with r2 [OF sx] v(6) show "\<exists>k. called c' x = Some k \<and> k < s" by simp
    qed
    ultimately show ?thesis unfolding inv_ret_def by blast
  next
    case (Store t)
    note e = fire_Store [OF f [unfolded Store]]
    from e obtain X where px: "pcs c t = Storing X"
      and v: "\<And>x. x \<noteq> t \<Longrightarrow> pcs c' x = pcs c x" "pcs c' t \<noteq> Done None"
        "sent c' = sent c" "passed c' = passed c" "returned c' = returned c" "called c' = called c"
      by auto
    have n: "pcs c t \<noteq> Done None" using px by simp
    have "\<And>x. pcs c' x = Done None \<Longrightarrow> pcs c x = Done None"
      using v(1,2) by metis
    with a1 r1 r2 show ?thesis unfolding inv_ret_def v(3-6) by blast
  next
    case (Send t)
    note e = fire_Send [OF f [unfolded Send]]
    from e obtain it where px: "pcs c t = Sending it"
      and v: "\<And>x. x \<noteq> t \<Longrightarrow> pcs c' x = pcs c x"
        "pcs c' t = Done None \<Longrightarrow> me_done it = None \<and> returned c' t = Some (clock c)"
        "sent c' = (sent c)(t := Some (clock c))" "passed c' = passed c"
        "\<And>x. x \<noteq> t \<Longrightarrow> returned c' x = returned c x"
        "called c' = called c"
      by (auto split: option.splits request.splits)
    from p2 [OF px] obtain ch kk where it: "it = item_of (prog t) ch" and ca: "called c t = Some kk"
      by auto
    have "\<forall>x entry. pcs c' x = Done None \<and> prog x = LogCall entry True
         \<longrightarrow> (\<exists>p r. passed c' x = Some p \<and> returned c' x = Some r \<and> p < r)"
    proof (intro allI impI)
      fix x entry assume a: "pcs c' x = Done None \<and> prog x = LogCall entry True"
      show "\<exists>p r. passed c' x = Some p \<and> returned c' x = Some r \<and> p < r"
      proof (cases "x = t")
        case True
        with a v(2) have "me_done it = None" by simp
        with it a True show ?thesis by (simp add: item_of_def)
      next
        case False
        with a v(1) have "pcs c x = Done None" by simp
        from a1 [OF this] a False v(4,5) show ?thesis by simp
      qed
    qed
    moreover have "\<forall>x. pcs c' x = Done None
         \<longrightarrow> (\<exists>s r. sent c' x = Some s \<and> returned c' x = Some r \<and> s \<le> r)"
    proof (intro allI impI)
      fix x assume a: "pcs c' x = Done None"
      show "\<exists>s r. sent c' x = Some s \<and> returned c' x = Some r \<and> s \<le> r"
      proof (cases "x = t")
        case True
        with a v(2) show ?thesis by (simp add: v(3))
      next
        case False
        with a v(1) have "pcs c x = Done None" by simp
        from r1 [OF this] False v(5) show ?thesis by (simp add: v(3))
      qed
    qed
    moreover have "\<forall>x s. sent c' x = Some s \<longrightarrow> (\<exists>k. called c' x = Some k \<and> k < s)"
    proof (intro allI impI)
      fix x s assume a: "sent c' x = Some s"
      show "\<exists>k. called c' x = Some k \<and> k < s"
      proof (cases "x = t")
        case True
        with a have "s = clock c" by (simp add: v(3))
        with ca t3 [OF ca] True show ?thesis by (simp add: v(6))
      next
        case False
        with a have "sent c x = Some s" by (simp add: v(3))
        from r2 [OF this] show ?thesis by (simp add: v(6))
      qed
    qed
    ultimately show ?thesis unfolding inv_ret_def by blast
  next
    case (CloseCh t)
    note e = fire_CloseCh [OF f [unfolded CloseCh]]
    from e obtain X where px: "pcs c t = Closing X"
      and v: "\<And>x. x \<noteq> t \<Longrightarrow> pcs c' x = pcs c x" "pcs c' t \<noteq> Done None"
        "sent c' = sent c" "passed c' = passed c" "returned c' = returned c" "called c' = called c"
      by auto
    have n: "pcs c t \<noteq> Done None" using px by simp
    have "\<And>x. pcs c' x = Done None \<Longrightarrow> pcs c x = Done None"
      using v(1,2) by metis
    with a1 r1 r2 show ?thesis unfolding inv_ret_def v(3-6) by blast
  next
    case (Wait t)
    note e = fire_Wait [OF f [unfolded Wait]]
    from e obtain ch where px: "pcs c t = Waiting ch" and cl: "ch \<in> closed_chans (sys c)"
      and v: "\<And>x. x \<noteq> t \<Longrightarrow> pcs c' x = pcs c x"
        "pcs c' t = Done None \<Longrightarrow> returned c' t = Some (clock c)"
        "sent c' = sent c" "passed c' = passed c"
        "\<And>x. x \<noteq> t \<Longrightarrow> returned c' x = returned c x"
        "called c' = called c"
      by auto
    from k4 [of t ch] px cl obtain pt where pt: "passed c t = Some pt" by auto
    from p3 [OF px] obtain stt where stt: "sent c t = Some stt" by auto
    have "\<forall>x entry. pcs c' x = Done None \<and> prog x = LogCall entry True
         \<longrightarrow> (\<exists>p r. passed c' x = Some p \<and> returned c' x = Some r \<and> p < r)"
    proof (intro allI impI)
      fix x entry assume a: "pcs c' x = Done None \<and> prog x = LogCall entry True"
      show "\<exists>p r. passed c' x = Some p \<and> returned c' x = Some r \<and> p < r"
      proof (cases "x = t")
        case True
        with a v(2) pt t2 [OF pt] show ?thesis by (simp add: v(4))
      next
        case False
        with a v(1) have "pcs c x = Done None" by simp
        from a1 [OF this] a False v(4,5) show ?thesis by simp
      qed
    qed
    moreover have "\<forall>x. pcs c' x = Done None
         \<longrightarrow> (\<exists>s r. sent c' x = Some s \<and> returned c' x = Some r \<and> s \<le> r)"
    proof (intro allI impI)
      fix x assume a: "pcs c' x = Done None"
      show "\<exists>s r. sent c' x = Some s \<and> returned c' x = Some r \<and> s \<le> r"
      proof (cases "x = t")
        case True
        with a v(2) stt t1 [OF stt] show ?thesis by (simp add: v(3))
      next
        case False
        with a v(1) have "pcs c x = Done None" by simp
        from r1 [OF this] False v(5) show ?thesis by (simp add: v(3))
      qed
    qed
    moreover have "\<forall>x s. sent c' x = Some s \<longrightarrow> (\<exists>k. called c' x = Some k \<and> k < s)"
      using r2 by (simp add: v(3,6))
    ultimately show ?thesis unfolding inv_ret_def by blast
  next
    case (Finish t)
    note e = fire_Finish [OF f [unfolded Finish]]
    from e have px: "pcs c t = Finishing"
      and v: "\<And>x. x \<noteq> t \<Longrightarrow> pcs c' x = pcs c x"
        "returned c' t = Some (clock c)"
        "sent c' = sent c" "passed c' = passed c"
        "\<And>x. x \<noteq> t \<Longrightarrow> returned c' x = returned c x"
        "called c' = called c"
      by auto
    from p4 [OF px] obtain stt where stt: "sent c t = Some stt" and cc: "prog t = CloseCall" by auto
    have "\<forall>x entry. pcs c' x = Done None \<and> prog x = LogCall entry True
         \<longrightarrow> (\<exists>p r. passed c' x = Some p \<and> returned c' x = Some r \<and> p < r)"
    proof (intro allI impI)
      fix x entry assume a: "pcs c' x = Done None \<and> prog x = LogCall entry True"
      with cc have ne: "x \<noteq> t" by auto
      with a v(1) have "pcs c x = Done None" by simp
      from a1 [OF this] a ne v(4,5) show "\<exists>p r. passed c' x = Some p \<and> returned c' x = Some r \<and> p < r"
        by simp
    qed
    moreover have "\<forall>x. pcs c' x = Done None
         \<longrightarrow> (\<exists>s r. sent c' x = Some s \<and> returned c' x = Some r \<and> s \<le> r)"
    proof (intro allI impI)
      fix x assume a: "pcs c' x = Done None"
      show "\<exists>s r. sent c' x = Some s \<and> returned c' x = Some r \<and> s \<le> r"
      proof (cases "x = t")
        case True
        with v(2) stt t1 [OF stt] show ?thesis by (simp add: v(3))
      next
        case False
        with a v(1) have "pcs c x = Done None" by simp
        from r1 [OF this] False v(5) show ?thesis by (simp add: v(3))
      qed
    qed
    moreover have "\<forall>x s. sent c' x = Some s \<longrightarrow> (\<exists>k. called c' x = Some k \<and> k < s)"
      using r2 by (simp add: v(3,6))
    ultimately show ?thesis unfolding inv_ret_def by blast
  next
    case Recv
    note e = fire_Recv [OF f [unfolded Recv]]
    from e have v: "pcs c' = pcs c" "sent c' = sent c" "passed c' = passed c"
      "returned c' = returned c" "called c' = called c"
      by auto
    from r show ?thesis unfolding inv_ret_def v .
  next
    case Process
    note e = fire_Process [OF f [unfolded Process]]
    from e obtain it where w: "w_item (sys c) = Some it" by blast
    from inv_flight_head [OF fl w] obtain u0 us where o: "owners c = u0 # us"
      and pu0: "passed c u0 = None"
      by blast
    with e have v: "pcs c' = pcs c" "sent c' = sent c" "returned c' = returned c"
      "called c' = called c" "passed c' = (passed c)(u0 := Some (clock c))"
      by auto
    have keep: "\<And>x p. passed c x = Some p \<Longrightarrow> passed c' x = Some p"
      using pu0 by (auto simp: v(5))
    have "\<forall>x entry. pcs c' x = Done None \<and> prog x = LogCall entry True
         \<longrightarrow> (\<exists>p r. passed c' x = Some p \<and> returned c' x = Some r \<and> p < r)"
    proof (intro allI impI)
      fix x entry assume a: "pcs c' x = Done None \<and> prog x = LogCall entry True"
      then have "pcs c x = Done None" "prog x = LogCall entry True" by (simp_all add: v(1))
      from a1 [OF this] obtain p r where "passed c x = Some p" "returned c x = Some r" "p < r"
        by blast
      with keep show "\<exists>p r. passed c' x = Some p \<and> returned c' x = Some r \<and> p < r"
        by (simp add: v(3))
    qed
    moreover have "\<forall>x. pcs c' x = Done None
         \<longrightarrow> (\<exists>s r. sent c' x = Some s \<and> returned c' x = Some r \<and> s \<le> r)"
      using r1 by (simp add: v(1-3))
    moreover have "\<forall>x s. sent c' x = Some s \<longrightarrow> (\<exists>k. called c' x = Some k \<and> k < s)"
      using r2 by (simp add: v(2,4))
    ultimately show ?thesis unfolding inv_ret_def by blast
  next
    case DoLock
    then have "a = DoLock \<or> a = DoUnlock \<or> (\<exists>out. a = Add out) \<or> (\<exists>out. a = Remove out)"
      by simp
    note e = fire_other [OF f this]
    from e have v: "pcs c' = pcs c" "sent c' = sent c" "passed c' = passed c"
      "returned c' = returned c" "called c' = called c"
      by auto
    from r show ?thesis unfolding inv_ret_def v .
  next
    case DoUnlock
    then have "a = DoLock \<or> a = DoUnlock \<or> (\<exists>out. a = Add out) \<or> (\<exists>out. a = Remove out)"
      by simp
    note e = fire_other [OF f this]
    from e have v: "pcs c' = pcs c" "sent c' = sent c" "passed c' = passed c"
      "returned c' = returned c" "called c' = called c"
      by auto
    from r show ?thesis unfolding inv_ret_def v .
  next
    case (Add out)
    then have "a = DoLock \<or> a = DoUnlock \<or> (\<exists>out. a = Add out) \<or> (\<exists>out. a = Remove out)"
      by simp
    note e = fire_other [OF f this]
    from e have v: "pcs c' = pcs c" "sent c' = sent c" "passed c' = passed c"
      "returned c' = returned c" "called c' = called c"
      by auto
    from r show ?thesis unfolding inv_ret_def v .
  next
    case (Remove out)
    then have "a = DoLock \<or> a = DoUnlock \<or> (\<exists>out. a = Add out) \<or> (\<exists>out. a = Remove out)"
      by simp
    note e = fire_other [OF f this]
    from e have v: "pcs c' = pcs c" "sent c' = sent c" "passed c' = passed c"
      "returned c' = returned c" "called c' = called c"
      by auto
    from r show ?thesis unfolding inv_ret_def v .
  qed
qed

lemma inv_step:
  assumes "inv prog c" and "fire ops prog a c = Some c'"
  shows "inv prog c'"
  unfolding inv_def
  using inv_time_step [OF assms] inv_chan_step [OF assms] inv_flight_step [OF assms]
    inv_pc_step [OF assms] inv_fifo_step [OF assms] inv_ret_step [OF assms]
  by blast

lemma inv_init: "inv prog (init h x es)"
  by (simp add: inv_def inv_time_def inv_chan_def inv_flight_def inv_pc_def inv_fifo_def
      inv_ret_def init_def newManager_def inflight_def)

lemma inv_run:
  "inv prog c \<Longrightarrow> run ops prog acts c = Some c' \<Longrightarrow> inv prog c'"
proof (induction acts arbitrary: c)
  case Nil
  then show ?case by simp
next
  case (Cons a acts)
  from Cons.prems(2) obtain c1 where f: "fire ops prog a c = Some c1"
    and r: "run ops prog acts c1 = Some c'"
    by (auto split: option.splits)
  from Cons.IH [OF inv_step [OF Cons.prems(1) f] r] show ?case .
qed

section \<open>The delivery passes of a run\<close>

text \<open>A run can be cut at any moment, and the clock counts its actions.\<close>

lemma run_append:
  "run ops prog (xs @ ys) c =
     (case run ops prog xs c of None \<Rightarrow> None | Some c' \<Rightarrow> run ops prog ys c')"
  by (induction xs arbitrary: c) (auto split: option.splits)

lemma run_take:
  assumes "run ops prog acts c0 = Some c"
  shows "\<exists>c1. run ops prog (take n acts) c0 = Some c1 \<and> run ops prog (drop n acts) c1 = Some c"
proof -
  from assms have "run ops prog (take n acts @ drop n acts) c0 = Some c" by simp
  then show ?thesis unfolding run_append by (auto split: option.splits)
qed

lemma fire_clock:
  assumes f: "fire ops prog a c = Some c'"
  shows "clock c' = Suc (clock c)"
proof (cases a)
  case (Call t)
  from fire_Call [OF f [unfolded Call]] show ?thesis by auto
next
  case (Store t)
  from fire_Store [OF f [unfolded Store]] show ?thesis by auto
next
  case (Send t)
  from fire_Send [OF f [unfolded Send]] show ?thesis by auto
next
  case (CloseCh t)
  from fire_CloseCh [OF f [unfolded CloseCh]] show ?thesis by auto
next
  case (Wait t)
  from fire_Wait [OF f [unfolded Wait]] show ?thesis by auto
next
  case (Finish t)
  from fire_Finish [OF f [unfolded Finish]] show ?thesis by simp
next
  case Recv
  from fire_Recv [OF f [unfolded Recv]] show ?thesis by auto
next
  case Process
  from fire_Process [OF f [unfolded Process]] show ?thesis by auto
next
  case DoLock
  with fire_other [OF f] show ?thesis by simp
next
  case DoUnlock
  with fire_other [OF f] show ?thesis by simp
next
  case (Add out)
  with fire_other [OF f] show ?thesis by simp
next
  case (Remove out)
  with fire_other [OF f] show ?thesis by simp
qed

lemma run_clock:
  "run ops prog acts c = Some c' \<Longrightarrow> clock c' = clock c + length acts"
proof (induction acts arbitrary: c)
  case Nil
  then show ?case by simp
next
  case (Cons a acts)
  from Cons.prems obtain c1 where f: "fire ops prog a c = Some c1"
    and r: "run ops prog acts c1 = Some c'"
    by (auto split: option.splits)
  from Cons.IH [OF r] fire_clock [OF f] show ?case by simp
qed

text \<open>The items in flight belong to their owners in every run.\<close>

lemma pcs_Closing_step:
  assumes f: "fire ops prog a c = Some c'"
    and k: "\<And>t ch. pcs c t = Closing ch \<Longrightarrow> prog t = CloseCall"
    and n: "pcs c' t = Closing ch"
  shows "prog t = CloseCall"
proof (cases a)
  case (Call u)
  from fire_Call [OF f [unfolded Call]] n k [of t ch] show ?thesis
    by (auto split: if_splits request.splits)
next
  case (Store u)
  from fire_Store [OF f [unfolded Store]] n k [of t ch] show ?thesis
    by (auto split: if_splits)
next
  case (Send u)
  from fire_Send [OF f [unfolded Send]] n k [of t ch] show ?thesis
    by (auto split: if_splits option.splits request.splits)
next
  case (CloseCh u)
  from fire_CloseCh [OF f [unfolded CloseCh]] n k [of t ch] show ?thesis
    by (auto split: if_splits)
next
  case (Wait u)
  from fire_Wait [OF f [unfolded Wait]] n k [of t ch] show ?thesis
    by (auto split: if_splits)
next
  case (Finish u)
  from fire_Finish [OF f [unfolded Finish]] n k [of t ch] show ?thesis
    by (auto split: if_splits)
next
  case Recv
  from fire_Recv [OF f [unfolded Recv]] n k [of t ch] show ?thesis by auto
next
  case Process
  from fire_Process [OF f [unfolded Process]] n k [of t ch] show ?thesis by auto
next
  case DoLock
  with fire_other [OF f] n k [of t ch] show ?thesis by simp
next
  case DoUnlock
  with fire_other [OF f] n k [of t ch] show ?thesis by simp
next
  case (Add out)
  with fire_other [OF f] n k [of t ch] show ?thesis by simp
next
  case (Remove out)
  with fire_other [OF f] n k [of t ch] show ?thesis by simp
qed

lemma inv_own_step:
  assumes i: "inv prog c" and o: "inv_own prog c" and f: "fire ops prog a c = Some c'"
  shows "inv_own prog c'"
proof -
  from o have l: "list_all2 (\<lambda>e u. \<exists>ch. e = item_of (prog u) ch) (inflight (sys c)) (owners c)"
    and k: "\<And>t ch. pcs c t = Closing ch \<Longrightarrow> prog t = CloseCall"
    unfolding inv_own_def by blast+
  from i have pc: "inv_pc prog c" by (simp add: inv_def)
  have "list_all2 (\<lambda>e u. \<exists>ch. e = item_of (prog u) ch) (inflight (sys c')) (owners c')"
  proof (cases "(\<exists>t. a = Send t) \<or> a = Process")
    case False
    then have "\<And>t. a \<noteq> Send t" "a \<noteq> Process" by auto
    from flight_view [OF i f this] l show ?thesis by simp
  next
    case True
    then consider t where "a = Send t" | "a = Process" by blast
    then show ?thesis
    proof cases
      case 1
      from fire_Send [OF f [unfolded 1]] obtain e where
        e: "pcs c t = Sending e" "owners c' = owners c @ [t]"
           "inflight (sys c') = inflight (sys c) @ [e]"
        by (auto simp: inflight_def)
      from pc e(1) obtain ch where "e = item_of (prog t) ch"
        unfolding inv_pc_def by blast
      with l e(2,3) show ?thesis by (auto intro: list_all2_appendI)
    next
      case 2
      from fire_Process [OF f [unfolded 2]] obtain e s' where
        w: "w_item (sys c) = Some e" "worker_process ops e (sys c) = Inr s'"
        and d: "owners c = [] \<and> c' = c\<lparr>sys := s', clock := Suc (clock c)\<rparr> \<or>
          (\<exists>u us. owners c = u # us \<and>
             c' = c\<lparr>sys := s', owners := us, passed := (passed c)(u := Some (clock c)),
                    clock := Suc (clock c)\<rparr>)"
        by blast
      from w(1) have fl: "inflight (sys c) = e # m_ch (sys c)" by (simp add: inflight_def)
      from worker_process_queue [OF w(2)] have fl': "inflight s' = m_ch (sys c)"
        by (simp add: inflight_def)
      from l fl obtain u us where u: "owners c = u # us"
        by (cases "owners c") auto
      with d have c': "sys c' = s'" "owners c' = us" by auto
      from l fl u have "list_all2 (\<lambda>e u. \<exists>ch. e = item_of (prog u) ch) (m_ch (sys c)) us"
        by simp
      with c' fl' show ?thesis by simp
    qed
  qed
  moreover have "\<forall>t ch. pcs c' t = Closing ch \<longrightarrow> prog t = CloseCall"
  proof (intro allI impI)
    fix t ch
    assume n: "pcs c' t = Closing ch"
    show "prog t = CloseCall"
      by (rule pcs_Closing_step [OF f _ n]) (rule k)
  qed
  ultimately show ?thesis unfolding inv_own_def by blast
qed

lemma inv_own_init: "inv_own prog (init h x es)"
  by (simp add: inv_own_def init_def newManager_def inflight_def)

lemma inv_own_run:
  "inv prog c \<Longrightarrow> inv_own prog c \<Longrightarrow> run ops prog acts c = Some c' \<Longrightarrow> inv_own prog c'"
proof (induction acts arbitrary: c)
  case Nil
  then show ?case by simp
next
  case (Cons a acts)
  from Cons.prems(3) obtain c1 where f: "fire ops prog a c = Some c1"
    and r: "run ops prog acts c1 = Some c'"
    by (auto split: option.splits)
  from Cons.IH [OF inv_step [OF Cons.prems(1) f] inv_own_step [OF Cons.prems(1,2) f] r]
  show ?case .
qed

text \<open>
  The moment a record was processed: the action at that index of the run is a pass of
  the worker, which held the item of the owner.
\<close>

lemma passed_step:
  assumes f: "fire ops prog a c = Some c'" and p: "passed c' u = Some p"
  shows "passed c u = Some p \<or>
     (a = Process \<and> p = clock c \<and> (\<exists>e us. w_item (sys c) = Some e \<and> owners c = u # us))"
proof (cases "a = Process")
  case False
  from chan_view [OF f False] p show ?thesis by auto
next
  case True
  from fire_Process [OF f [unfolded True]] p True show ?thesis
    by (auto split: if_splits)
qed

lemma pass_at:
  assumes "run ops prog acts (init h x es) = Some c" and "passed c u = Some p"
  shows "p < length acts \<and> acts ! p = Process \<and>
     (\<exists>c1 e us. run ops prog (take p acts) (init h x es) = Some c1 \<and>
        w_item (sys c1) = Some e \<and> owners c1 = u # us)"
  using assms
proof (induction acts arbitrary: c rule: rev_induct)
  case Nil
  then have "passed (init h x es :: ('a, 'b) conf) u = Some p" by simp
  then show ?case by (simp add: init_def)
next
  case (snoc a as)
  from snoc.prems(1) obtain c' where r: "run ops prog as (init h x es) = Some c'"
    and f: "fire ops prog a c' = Some c"
    unfolding run_append by (auto split: option.splits)
  from run_clock [OF r] have cl: "clock c' = length as" by (simp add: init_def)
  from passed_step [OF f snoc.prems(2)]
  consider "passed c' u = Some p"
    | "a = Process" "p = clock c'" "\<exists>e us. w_item (sys c') = Some e \<and> owners c' = u # us"
    by blast
  then show ?case
  proof cases
    case 1
    from snoc.IH [OF r 1] show ?thesis by (auto simp: nth_append)
  next
    case 2
    with cl r show ?thesis by (auto simp: nth_append)
  qed
qed

text \<open>
  The worker's pass for an item with an entry calls \<^verbatim>\<open>Log\<close> once on every output
  that is registered when the pass begins, and the list of recorded calls only grows.
\<close>

lemma worker_process_traced:
  assumes w: "worker_process (traced ops) e s = Inr s'" and a: "me_entry e = Some a"
  shows "\<exists>cs. snd (heap s') = snd (heap s) @ cs \<and> map logged cs = map Some (m_outputs s)"
proof -
  from w a obtain st1 st2 where
    d: "deliver (traced ops) a s = Inr st1" and
    sg: "signal (me_done e) st1 = Inr st2" and
    r: "s' = st2\<lparr>w_item := None\<rparr>"
    by (auto simp: worker_process_def bindF_def split: sum.splits)
  from signal_frame [OF sg] r have "heap s' = heap st1" by simp
  with deliver_calls_Log_on_every_output [OF d] show ?thesis by simp
qed

lemma worker_process_trace:
  assumes w: "worker_process (traced ops) e s = Inr s'"
  shows "\<exists>cs. snd (heap s') = snd (heap s) @ cs"
proof (cases "me_entry e")
  case None
  with w obtain st2 where
    sg: "signal (me_done e) s = Inr st2" and
    r: "s' = st2\<lparr>w_item := None\<rparr>"
    by (auto simp: worker_process_def bindF_def split: sum.splits)
  from signal_frame [OF sg] r show ?thesis by simp
next
  case (Some a)
  from worker_process_traced [OF w Some] show ?thesis by blast
qed

lemma fire_trace:
  assumes f: "fire (traced ops) prog a c = Some c'"
  shows "\<exists>cs. snd (heap (sys c')) = snd (heap (sys c)) @ cs"
proof (cases a)
  case (Call t)
  from fire_Call [OF f [unfolded Call]] show ?thesis by auto
next
  case (Store t)
  from fire_Store [OF f [unfolded Store]] show ?thesis by auto
next
  case (Send t)
  from fire_Send [OF f [unfolded Send]] show ?thesis by auto
next
  case (CloseCh t)
  from fire_CloseCh [OF f [unfolded CloseCh]] show ?thesis by auto
next
  case (Wait t)
  from fire_Wait [OF f [unfolded Wait]] show ?thesis by auto
next
  case (Finish t)
  obtain h tr where hs: "heap (sys c) = (h, tr)" by (cases "heap (sys c)") auto
  from f [unfolded Finish] hs show ?thesis
    by (auto simp: fire_def Let_def close_outputs_traced split: pc.splits if_splits)
next
  case Recv
  from fire_Recv [OF f [unfolded Recv]] show ?thesis by auto
next
  case Process
  from fire_Process [OF f [unfolded Process]] obtain e s' where
    "worker_process (traced ops) e (sys c) = Inr s'" "sys c' = s'"
    by auto
  with worker_process_trace show ?thesis by blast
next
  case DoLock
  with f show ?thesis by (auto simp: fire_def Let_def Lock_def split: if_splits)
next
  case DoUnlock
  with f show ?thesis by (auto simp: fire_def Let_def Unlock_def split: if_splits)
next
  case (Add out)
  obtain h tr where hs: "heap (sys c) = (h, tr)" by (cases "heap (sys c)") auto
  from f [unfolded Add] hs show ?thesis
    by (auto simp: fire_def Let_def addOutput_def traced_def split: if_splits prod.splits)
next
  case (Remove out)
  with f show ?thesis
    by (auto simp: fire_def Let_def removeOutput_def split: if_splits option.splits)
qed

lemma run_trace:
  "run (traced ops) prog acts c = Some c' \<Longrightarrow> \<exists>cs. snd (heap (sys c')) = snd (heap (sys c)) @ cs"
proof (induction acts arbitrary: c)
  case Nil
  then show ?case by simp
next
  case (Cons a acts)
  from Cons.prems obtain c1 where f: "fire (traced ops) prog a c = Some c1"
    and r: "run (traced ops) prog acts c1 = Some c'"
    by (auto split: option.splits)
  from fire_trace [OF f] Cons.IH [OF r] show ?case by auto
qed

text \<open>The moment an item was sent never changes, and a later send is stamped later.\<close>

lemma sent_step:
  assumes i: "inv prog c" and f: "fire ops prog a c = Some c'"
  shows "(sent c u = Some n \<longrightarrow> sent c' u = Some n) \<and>
         (sent c u = None \<and> sent c' u = Some n \<longrightarrow> n = clock c)"
proof -
  from i have pc: "inv_pc prog c" by (simp add: inv_def)
  consider t where "a = Send t" | "a = Process" | "\<And>t. a \<noteq> Send t" "a \<noteq> Process"
    by blast
  then show ?thesis
  proof cases
    case 1
    from fire_Send [OF f [unfolded 1]] obtain e where
      e: "pcs c t = Sending e" "sent c' = (sent c)(t := Some (clock c))"
      by auto
    from pc e(1) have "sent c t = None" unfolding inv_pc_def by blast
    with e(2) show ?thesis by auto
  next
    case 2
    from fire_Process [OF f [unfolded 2]] have "sent c' = sent c" by auto
    then show ?thesis by auto
  next
    case 3
    from flight_view [OF i f 3] show ?thesis by auto
  qed
qed

lemma sent_run:
  "inv prog c \<Longrightarrow> run ops prog acts c = Some c' \<Longrightarrow>
     (sent c u = Some n \<longrightarrow> sent c' u = Some n) \<and>
     (sent c u = None \<and> sent c' u = Some n \<longrightarrow> clock c \<le> n)"
proof (induction acts arbitrary: c n)
  case Nil
  then show ?case by auto
next
  case (Cons a acts)
  from Cons.prems(2) obtain c1 where f: "fire ops prog a c = Some c1"
    and r: "run ops prog acts c1 = Some c'"
    by (auto split: option.splits)
  note ih = Cons.IH [OF inv_step [OF Cons.prems(1) f] r]
  note st = sent_step [OF Cons.prems(1) f, of u]
  note cl = fire_clock [OF f]
  have "sent c' u = Some n" if "sent c u = Some n"
    using that st [of n] ih [of n] by simp
  moreover have "clock c \<le> n" if a: "sent c u = None" and b: "sent c' u = Some n"
  proof (cases "sent c1 u")
    case None
    with ih [of n] b cl show ?thesis by simp
  next
    case (Some k)
    with ih [of k] b have "k = n" by simp
    with st [of n] a Some show ?thesis by simp
  qed
  ultimately show ?case by blast
qed

text \<open>
  The pass of a \<^verbatim>\<open>log\<close> call's record, as a step of the run: the worker holds the
  item with the entry of the call, the step appends one \<^verbatim>\<open>Log\<close> call for every
  output registered before it, and a blocking caller is still waiting after it.
\<close>

lemma pass_step:
  assumes run: "run (traced ops) prog acts (init (h, []) x es) = Some c"
    and p: "passed c u = Some p" and u: "prog u = LogCall (Some a) blk"
  obtains c1 c1' cs ch where
    "p < length acts" and "acts ! p = Process" and
    "run (traced ops) prog (take p acts) (init (h, []) x es) = Some c1" and
    "run (traced ops) prog (take (Suc p) acts) (init (h, []) x es) = Some c1'" and
    "w_item (sys c1) = Some \<lparr>me_entry = Some a, me_done = (if blk then Some ch else None)\<rparr>" and
    "snd (heap (sys c1')) = snd (heap (sys c1)) @ cs" and
    "map logged cs = map Some (m_outputs (sys c1))" and
    "blk \<longrightarrow> pcs c1' u = Waiting ch"
proof -
  let ?c0 = "init (h, []) x es :: ('a, 'b \<times> 'a call list) conf"
  from pass_at [OF run p] obtain c1 e us where
    lt: "p < length acts" and ap: "acts ! p = Process" and
    r1: "run (traced ops) prog (take p acts) ?c0 = Some c1" and
    w: "w_item (sys c1) = Some e" and ow: "owners c1 = u # us"
    by blast
  from inv_run [OF inv_init r1] have i1: "inv prog c1" .
  from inv_own_run [OF inv_init inv_own_init r1] have o1: "inv_own prog c1" .
  from o1 w ow obtain ch where "e = item_of (prog u) ch"
    by (auto simp: inv_own_def inflight_def)
  with u have e: "e = \<lparr>me_entry = Some a, me_done = (if blk then Some ch else None)\<rparr>"
    by (simp add: item_of_def)
  from run_take [OF run, of "Suc p"] obtain c1' where
    r1': "run (traced ops) prog (take (Suc p) acts) ?c0 = Some c1'"
    by blast
  from lt ap have "take (Suc p) acts = take p acts @ [Process]"
    by (simp add: take_Suc_conv_app_nth)
  with r1' r1 have f: "fire (traced ops) prog Process c1 = Some c1'"
    by (simp add: run_append split: option.splits)
  from fire_Process [OF f] w obtain s' where
    wp: "worker_process (traced ops) e (sys c1) = Inr s'" and s': "sys c1' = s'"
    and pcs: "pcs c1' = pcs c1"
    by auto
  from e have "me_entry e = Some a" by simp
  from worker_process_traced [OF wp this] s' obtain cs where
    cs: "snd (heap (sys c1')) = snd (heap (sys c1)) @ cs"
        "map logged cs = map Some (m_outputs (sys c1))"
    by auto
  have wt: "pcs c1 u = Waiting ch" if blk
  proof -
    from i1 have fl: "inv_flight c1" and pc: "inv_pc prog c1" by (simp_all add: inv_def)
    from fl have f2: "\<And>i ch. i < length (owners c1) \<Longrightarrow> me_done (inflight (sys c1) ! i) = Some ch
         \<Longrightarrow> chan_at (pcs c1 (owners c1 ! i)) = Some ch"
      and f3: "\<And>t. t \<in> set (owners c1) \<Longrightarrow> sent c1 t \<noteq> None"
      unfolding inv_flight_def by blast+
    from w e that have "me_done (inflight (sys c1) ! 0) = Some ch"
      by (simp add: inflight_def)
    with f2 [of 0 ch] ow have ca: "chan_at (pcs c1 u) = Some ch" by simp
    from f3 [of u] ow have sn: "sent c1 u \<noteq> None" by simp
    from pc have nst: "\<And>e. pcs c1 u = Storing e \<or> pcs c1 u = Sending e \<Longrightarrow> sent c1 u = None"
      unfolding inv_pc_def by blast
    from o1 have ncl: "\<And>ch. pcs c1 u = Closing ch \<Longrightarrow> prog u = CloseCall"
      unfolding inv_own_def by blast
    show ?thesis
    proof (cases "pcs c1 u")
      case (Storing e')
      with nst [of e'] sn show ?thesis by simp
    next
      case (Sending e')
      with nst [of e'] sn show ?thesis by simp
    next
      case (Closing ch')
      with ncl [of ch'] u show ?thesis by simp
    next
      case (Waiting ch')
      with ca show ?thesis by simp
    qed (use ca in simp_all)
  qed
  from pcs wt have wt': "blk \<longrightarrow> pcs c1' u = Waiting ch" by simp
  from w e have w': "w_item (sys c1) = Some \<lparr>me_entry = Some a, me_done = (if blk then Some ch else None)\<rparr>"
    by simp
  show ?thesis
    by (rule that [OF lt ap r1 r1' w' cs wt'])
qed

text \<open>
  When at some moment of a run one call has returned nil and a blocking \<^verbatim>\<open>log\<close> call
  has not yet been made, and the blocking call has returned nil at the end, the
  record of the first was processed before the record of the second.
\<close>

lemma passes_ordered:
  assumes run: "run ops prog acts (init h x es) = Some c"
    and at_k: "run ops prog (take k acts) (init h x es) = Some ck"
    and t: "pcs ck t = Done None"
    and b: "prog b = LogCall eb True" "pcs ck b = Idle" "pcs c b = Done None"
  shows "\<exists>pt pb. passed c t = Some pt \<and> passed c b = Some pb \<and> pt < pb"
proof -
  from inv_run [OF inv_init run] have i: "inv prog c" .
  from inv_run [OF inv_init at_k] have ik: "inv prog ck" .
  from i have r: "inv_ret prog c" and ff: "inv_fifo c" by (simp_all add: inv_def)
  from ik have rk: "inv_ret prog ck" and tk: "inv_time ck" and pk: "inv_pc prog ck"
    by (simp_all add: inv_def)
  from run_take [OF run, of k] at_k have rn: "run ops prog (drop k acts) ck = Some c" by simp
  from rk t obtain st where st: "sent ck t = Some st"
    unfolding inv_ret_def by blast
  with tk have lt: "st < clock ck" unfolding inv_time_def by blast
  from pk b(2) have nb: "sent ck b = None" unfolding inv_pc_def by blast
  from r b(1,3) obtain pb where pb: "passed c b = Some pb"
    unfolding inv_ret_def by blast
  from r b(3) obtain sb where sb: "sent c b = Some sb"
    unfolding inv_ret_def by blast
  from sent_run [OF ik rn, of t st] st have st': "sent c t = Some st" by simp
  from sent_run [OF ik rn, of b sb] nb sb have "clock ck \<le> sb" by simp
  with lt have "st < sb" by simp
  with ff sb st' pb obtain pt where "passed c t = Some pt" "pt < pb"
    unfolding inv_fifo_def by blast
  with pb show ?thesis by blast
qed

text \<open>
  The order of the deliveries, on the calls the outputs receive. In every run,
  whatever the interleaving: when a \<^verbatim>\<open>log\<close> call has returned nil at a moment at
  which a blocking \<^verbatim>\<open>log\<close> call has not yet been made, and the blocking call has
  returned nil, then the run has a pass for the earlier record and, later, a pass for
  the record of the blocking call. Each pass calls \<^verbatim>\<open>Log\<close> on every output that is
  registered when it begins; the calls of the first pass are recorded before those of
  the second, and the blocking caller is still waiting when the pass of its record
  ends. Which outputs are registered at that moment is not said here.
\<close>

lemma earlier_record_logged_first:
  assumes run: "run (traced ops) prog acts (init (h, []) x es) = Some c"
    and at_k: "run (traced ops) prog (take k acts) (init (h, []) x es) = Some ck"
    and t: "prog t = LogCall (Some a1) blk" "pcs ck t = Done None"
    and b: "prog b = LogCall (Some a2) True" "pcs ck b = Idle" "pcs c b = Done None"
  shows "\<exists>n m c1 c1' c2 c2' d ch cs1 mid cs2 post.
      n < m \<and> m < length acts \<and> acts ! n = Process \<and> acts ! m = Process \<and>
      run (traced ops) prog (take n acts) (init (h, []) x es) = Some c1 \<and>
      run (traced ops) prog (take (Suc n) acts) (init (h, []) x es) = Some c1' \<and>
      run (traced ops) prog (take m acts) (init (h, []) x es) = Some c2 \<and>
      run (traced ops) prog (take (Suc m) acts) (init (h, []) x es) = Some c2' \<and>
      w_item (sys c1) = Some \<lparr>me_entry = Some a1, me_done = d\<rparr> \<and>
      w_item (sys c2) = Some \<lparr>me_entry = Some a2, me_done = Some ch\<rparr> \<and>
      pcs c2' b = Waiting ch \<and>
      snd (heap (sys c1')) = snd (heap (sys c1)) @ cs1 \<and>
      map logged cs1 = map Some (m_outputs (sys c1)) \<and>
      snd (heap (sys c2)) = snd (heap (sys c1')) @ mid \<and>
      snd (heap (sys c2')) = snd (heap (sys c2)) @ cs2 \<and>
      map logged cs2 = map Some (m_outputs (sys c2)) \<and>
      snd (heap (sys c)) = snd (heap (sys c2')) @ post"
proof -
  let ?c0 = "init (h, []) x es :: ('a, 'b \<times> 'a call list) conf"
  let ?run = "run (traced ops) prog"
  from passes_ordered [OF run at_k t(2) b] obtain pt pb where
    pt: "passed c t = Some pt" and pb: "passed c b = Some pb" and lt: "pt < pb"
    by blast
  from pass_step [OF run pt t(1)] obtain c1 c1' cs1 ch1 where
    n: "pt < length acts" "acts ! pt = Process" and
    r1: "?run (take pt acts) ?c0 = Some c1" "?run (take (Suc pt) acts) ?c0 = Some c1'" and
    w1: "w_item (sys c1) = Some \<lparr>me_entry = Some a1, me_done = (if blk then Some ch1 else None)\<rparr>" and
    cs1: "snd (heap (sys c1')) = snd (heap (sys c1)) @ cs1"
         "map logged cs1 = map Some (m_outputs (sys c1))" .
  from pass_step [OF run pb b(1)] obtain c2 c2' cs2 ch where
    m: "pb < length acts" "acts ! pb = Process" and
    r2: "?run (take pb acts) ?c0 = Some c2" "?run (take (Suc pb) acts) ?c0 = Some c2'" and
    w2': "w_item (sys c2) = Some \<lparr>me_entry = Some a2, me_done = (if True then Some ch else None)\<rparr>" and
    cs2: "snd (heap (sys c2')) = snd (heap (sys c2)) @ cs2"
         "map logged cs2 = map Some (m_outputs (sys c2))" and
    wt': "True \<longrightarrow> pcs c2' b = Waiting ch" .
  from w2' have w2: "w_item (sys c2) = Some \<lparr>me_entry = Some a2, me_done = Some ch\<rparr>" by simp
  from wt' have wt: "pcs c2' b = Waiting ch" by simp
  from lt have "take (Suc pt) (take pb acts) = take (Suc pt) acts" by (simp add: min_def)
  with run_take [OF r2(1), of "Suc pt"] r1(2)
  have "?run (drop (Suc pt) (take pb acts)) c1' = Some c2" by simp
  from run_trace [OF this] obtain mid where
    mid: "snd (heap (sys c2)) = snd (heap (sys c1')) @ mid" by blast
  from run_take [OF run, of "Suc pb"] r2(2)
  have "?run (drop (Suc pb) acts) c2' = Some c" by simp
  from run_trace [OF this] obtain post where
    post: "snd (heap (sys c)) = snd (heap (sys c2')) @ post" by blast
  show ?thesis
    apply (rule exI [of _ pt], rule exI [of _ pb], rule exI [of _ c1], rule exI [of _ c1'])
    apply (rule exI [of _ c2], rule exI [of _ c2'])
    apply (rule exI [of _ "if blk then Some ch1 else None"], rule exI [of _ ch])
    apply (rule exI [of _ cs1], rule exI [of _ mid], rule exI [of _ cs2], rule exI [of _ post])
    apply (intro conjI)
    apply (rule lt, rule m(1), rule n(2), rule m(2), rule r1(1), rule r1(2), rule r2(1),
      rule r2(2), rule w1, rule w2, rule wt, rule cs1(1), rule cs1(2), rule mid, rule cs2(1),
      rule cs2(2), rule post)
    done
qed

text \<open>
  The run of the example program with one text output: the goroutine 0 logs without
  blocking and returns, then the goroutine 1 logs and blocks; the lemma above applies
  with the moment 3.
\<close>

lemma run01:
  "(case run (traced wrapper_ops) prog01
           [Add 0, Call 0, Send 0, Call 1, Send 1, Recv, Process, Recv, Process, Wait 1]
           (init (h_text, []) x0 ents01) of
      None \<Rightarrow> False
    | Some c \<Rightarrow>
        pcs c 1 = Done None \<and>
        snd (heap (sys c)) =
          [Call_OnAdd 0, Call_Log 0 (entry0 ''first'') None, Call_Log 0 (entry0 ''second'') None] \<and>
        map written (map (writers (xw (sys c))) [0]) = [[''[INFO] first'', ''[INFO] second'']]) \<and>
   (case run (traced wrapper_ops) prog01 [Add 0, Call 0, Send 0] (init (h_text, []) x0 ents01) of
      None \<Rightarrow> False
    | Some ck \<Rightarrow> pcs ck 0 = Done None \<and> pcs ck 1 = Idle)"
  by code_simp

lemma earlier_record_logged_first_example:
  "\<exists>c. run (traced wrapper_ops) prog01
        [Add 0, Call 0, Send 0, Call 1, Send 1, Recv, Process, Recv, Process, Wait 1]
        (init (h_text, []) x0 ents01) = Some c \<and>
      snd (heap (sys c)) =
        [Call_OnAdd 0, Call_Log 0 (entry0 ''first'') None, Call_Log 0 (entry0 ''second'') None] \<and>
      (\<exists>n m c1 c1' c2 c2' d ch cs1 mid cs2 post.
        n < m \<and>
        m < length [Add 0, Call 0, Send 0, Call 1, Send 1, Recv, Process, Recv, Process, Wait (1::nat) :: nat action] \<and>
        [Add 0, Call 0, Send 0, Call 1, Send 1, Recv, Process, Recv, Process, Wait (1::nat) :: nat action] ! n = Process \<and>
        [Add 0, Call 0, Send 0, Call 1, Send 1, Recv, Process, Recv, Process, Wait (1::nat) :: nat action] ! m = Process \<and>
        run (traced wrapper_ops) prog01
          (take n [Add 0, Call 0, Send 0, Call 1, Send 1, Recv, Process, Recv, Process, Wait 1])
          (init (h_text, []) x0 ents01) = Some c1 \<and>
        run (traced wrapper_ops) prog01
          (take (Suc n) [Add 0, Call 0, Send 0, Call 1, Send 1, Recv, Process, Recv, Process, Wait 1])
          (init (h_text, []) x0 ents01) = Some c1' \<and>
        run (traced wrapper_ops) prog01
          (take m [Add 0, Call 0, Send 0, Call 1, Send 1, Recv, Process, Recv, Process, Wait 1])
          (init (h_text, []) x0 ents01) = Some c2 \<and>
        run (traced wrapper_ops) prog01
          (take (Suc m) [Add 0, Call 0, Send 0, Call 1, Send 1, Recv, Process, Recv, Process, Wait 1])
          (init (h_text, []) x0 ents01) = Some c2' \<and>
        w_item (sys c1) = Some \<lparr>me_entry = Some 0, me_done = d\<rparr> \<and>
        w_item (sys c2) = Some \<lparr>me_entry = Some 1, me_done = Some ch\<rparr> \<and>
        pcs c2' 1 = Waiting ch \<and>
        snd (heap (sys c1')) = snd (heap (sys c1)) @ cs1 \<and>
        map logged cs1 = map Some (m_outputs (sys c1)) \<and>
        snd (heap (sys c2)) = snd (heap (sys c1')) @ mid \<and>
        snd (heap (sys c2')) = snd (heap (sys c2)) @ cs2 \<and>
        map logged cs2 = map Some (m_outputs (sys c2)) \<and>
        snd (heap (sys c)) = snd (heap (sys c2')) @ post)"
proof -
  let ?acts = "[Add 0, Call 0, Send 0, Call 1, Send 1, Recv, Process, Recv, Process, Wait 1]
                 :: nat action list"
  let ?c0 = "init (h_text, []) x0 ents01 :: (nat, (nat \<Rightarrow> outputWrapper) \<times> nat call list) conf"
  from run01 obtain c ck where
    r: "run (traced wrapper_ops) prog01 ?acts ?c0 = Some c" and
    p: "pcs c 1 = Done None" and
    tr: "snd (heap (sys c)) =
          [Call_OnAdd 0, Call_Log 0 (entry0 ''first'') None, Call_Log 0 (entry0 ''second'') None]" and
    rk: "run (traced wrapper_ops) prog01 [Add 0, Call 0, Send 0] ?c0 = Some ck" and
    pk: "pcs ck 0 = Done None" "pcs ck 1 = Idle"
    by (auto split: option.splits)
  have tk: "take 3 ?acts = [Add 0, Call 0, Send 0]" by simp
  have t: "prog01 0 = LogCall (Some 0) False" and b: "prog01 1 = LogCall (Some 1) True"
    by (simp_all add: prog01_def)
  note l = earlier_record_logged_first [OF r rk [folded tk] t pk(1) b pk(2) p]
  show ?thesis
    by (rule exI [of _ c], intro conjI, rule r, rule tr, rule l)
qed

section \<open>The claim about the order of delivery\<close>

text \<open>
  C1 fails on the code, through the slip of the second loop of the worker. Three
  outputs are registered; the outputs 0 and 2 answer \<^verbatim>\<open>ErrOutputClosed\<close>, the output 1
  answers nil. The goroutine 0 logs the record \<open>first\<close> without blocking and returns
  nil; after that the goroutine 1 logs the record \<open>second\<close>, blocks until the worker
  has processed it, and returns nil. The pass of the first record calls \<^verbatim>\<open>Log\<close> on
  the three outputs and leaves the output 2 alone in the registry, so the pass of the
  blocking call's record calls \<^verbatim>\<open>Log\<close> on the output 2 only. The output 1, which
  never failed and which no caller removed, is handed the first record and never the
  record of the blocking call, although that call has returned. The same happens when
  one goroutine makes the two calls one after the other.
\<close>

theorem blocking_record_misses_healthy_output:
  "(case run (traced wrapper_ops) prog01
           [Add 0, Add 1, Add 2, Call 0, Send 0, Call 1, Send 1, Recv, Process, Recv, Process,
            Wait 1]
           (init (h_text, []) x_closed02 ents01) of
      None \<Rightarrow> False
    | Some c \<Rightarrow>
        pcs c 0 = Done None \<and> pcs c 1 = Done None \<and>
        [(out, Msg e, r). Call_Log out e r \<leftarrow> snd (heap (sys c))]
          = [(0, ''first'', Some ErrOutputClosed), (1, ''first'', None),
             (2, ''first'', Some ErrOutputClosed), (2, ''second'', Some ErrOutputClosed)] \<and>
        map written (map (writers (xw (sys c))) [0, 1, 2])
          = [[''[INFO] first''], [''[INFO] first''], [''[INFO] first'', ''[INFO] second'']]) \<and>
   (case bindF (addOutput (traced wrapper_ops) 0 (newManager (h_text, []) x_closed02 ents01)) (\<lambda>s.
           bindF (addOutput (traced wrapper_ops) 1 s) (\<lambda>s.
           bindF (addOutput (traced wrapper_ops) 2 s) (\<lambda>s.
           bindF (log (traced wrapper_ops) (Some 0) False s) (\<lambda>(err0, s).
           bindF (log (traced wrapper_ops) (Some 1) True s) (\<lambda>(err1, s).
             Inr (err0, err1, s)))))) of
      Inl f \<Rightarrow> False
    | Inr (err0, err1, st) \<Rightarrow>
        err0 = None \<and> err1 = None \<and>
        [(out, Msg e, r). Call_Log out e r \<leftarrow> snd (heap st)]
          = [(0, ''first'', Some ErrOutputClosed), (1, ''first'', None),
             (2, ''first'', Some ErrOutputClosed), (2, ''second'', Some ErrOutputClosed)] \<and>
        map written (map (writers (xw st)) [0, 1, 2])
          = [[''[INFO] first''], [''[INFO] first''], [''[INFO] first'', ''[INFO] second'']])"
  by code_simp

end
